theory Spec2Isabelle
  imports Main
begin

section \<open>Authenticated data packages: the model of authPackage.go\<close>

text \<open>
  Go byte slices and strings are modelled as \<open>string\<close> (lists of 8-bit characters).
  Every error return of the source is a value of type \<open>error\<close>; the messages built with
  \<open>errors.New\<close> and \<open>fmt.Errorf\<close> are constructors carrying the formatted arguments.
  \<open>EOF\<close> is \<open>io.EOF\<close>, \<open>LibraryError\<close> is any error value produced by the Go
  standard library.

  Modelled from the spec: \<open>ContextError\<close> is defined elsewhere in the repository; it
  wraps an error with the call site, so it is a constructor around the wrapped error.
\<close>


datatype jstate =
    stateJSONSeekingObjectStart
  | stateJSONSeekingKeyStart
  | stateJSONSeekingKeyEnd
  | stateJSONSeekingColon
  | stateJSONSeekingStringValueStart
  | stateJSONSeekingStringValueEnd
  | stateJSONSeekingNextPair
  | stateJSONObjectEnd

datatype error =
    EOF
  | LibraryError string
  | UnexpectedCharacter char jstate
  | UnsupportedEscapedCharacter
  | UnexpectedState
  | UnexpectedEOFBeforeObjectEnd
  | UnexpectedKey string
  | MissingExpectedField
  | UnexpectedSigningPublicKeyType
  | UnexpectedSigningPublicKeyDigest
  | ContextError error

text \<open>
  An \<open>io.Reader\<close> read into a one-byte buffer returns \<open>n\<close> (0 or 1) and an error or nil.
  \<open>Read1 b err\<close> is \<open>n = 1\<close> with the byte \<open>b\<close> stored in the buffer, \<open>Read0 err\<close> is
  \<open>n = 0\<close>; \<open>Read0 None\<close> is the read that returns \<open>(0, nil)\<close>, which \<open>io.Reader\<close>
  discourages and permits. A reader is the list of the results of its successive reads;
  once the list is exhausted every read returns \<open>(0, io.EOF)\<close>.
\<close>

datatype read_result = Read1 char "error option" | Read0 "error option"

type_synonym reader = "read_result list"

fun reader_Read :: "reader \<Rightarrow> read_result \<times> reader" where
  "reader_Read [] = (Read0 (Some EOF), [])"
| "reader_Read (r # rd) = (r, rd)"

text \<open>The reader that delivers the bytes \<open>bs\<close>, one per read and without error.\<close>

definition plain :: "string \<Rightarrow> reader" where
  "plain bs = map (\<lambda>b. Read1 b None) bs"

lemma plain_Nil: "plain [] = []"
  by (simp add: plain_def)

lemma plain_Cons: "plain (b # bs) = Read1 b None # plain bs"
  by (simp add: plain_def)

lemma plain_append: "plain (xs @ ys) = plain xs @ plain ys"
  by (simp add: plain_def)

fun read_n :: "read_result \<Rightarrow> nat" where
  "read_n (Read1 b e) = 1"
| "read_n (Read0 e) = 0"

fun read_err :: "read_result \<Rightarrow> error option" where
  "read_err (Read1 b e) = e"
| "read_err (Read0 e) = e"

record limitedJSONValueStreamer =
  eof :: bool
  reader :: reader

text \<open>
  \<open>limitedJSONValueStreamer.Read(p)\<close>: the loop \<open>for i = 0; i < len(p); i++\<close>, from
  index \<open>i\<close>. The buffer \<open>p\<close> is passed with its contents and returned as the loop leaves
  it; the caller receives \<open>n\<close> and the error and finds the bytes read in the first \<open>n\<close>
  places of the buffer. The mutex is not modelled.
\<close>

function Read_from ::
  "limitedJSONValueStreamer \<Rightarrow> string \<Rightarrow> nat \<Rightarrow> (nat \<times> error option) \<times> string \<times> limitedJSONValueStreamer" where
  "Read_from streamer p i =
    (if i < length p then
       (case reader_Read (reader streamer) of
          (Read1 b readErr, rd) \<Rightarrow>
            if p[i := b] ! i = CHR 0x22 then
              ((i, Some EOF), p[i := b], streamer\<lparr>eof := True, reader := rd\<rparr>)
            else if p[i := b] ! i = CHR 0x5C then
              ((i, Some (ContextError UnsupportedEscapedCharacter)), p[i := b], streamer\<lparr>reader := rd\<rparr>)
            else if readErr \<noteq> None then ((i, readErr), p[i := b], streamer\<lparr>reader := rd\<rparr>)
            else Read_from (streamer\<lparr>reader := rd\<rparr>) (p[i := b]) (Suc i)
        | (Read0 readErr, rd) \<Rightarrow>
            if readErr \<noteq> None then ((i, readErr), p, streamer\<lparr>reader := rd\<rparr>)
            else Read_from (streamer\<lparr>reader := rd\<rparr>) p (Suc i))
     else ((i, None), p, streamer))"
  by pat_completeness auto
termination
  by (relation "measure (\<lambda>(s, p, i). length p - i)") auto

definition Read ::
  "limitedJSONValueStreamer \<Rightarrow> string \<Rightarrow> (nat \<times> error option) \<times> string \<times> limitedJSONValueStreamer" where
  "Read streamer p = (if eof streamer then ((0, Some EOF), p, streamer) else Read_from streamer p 0)"

datatype 'h step = Return "error option" 'h | Continue jstate string 'h reader

type_synonym 'h handler = "'h \<Rightarrow> string \<Rightarrow> limitedJSONValueStreamer \<Rightarrow> (bool \<times> error option) \<times> 'h \<times> limitedJSONValueStreamer"

definition isWhitespace :: "char \<Rightarrow> bool" where
  "isWhitespace b = (b = CHR '' '' \<or> b = CHR 0x09 \<or> b = CHR 0x0D \<or> b = CHR 0x0A)"

fun Stream_byte :: "'h handler \<Rightarrow> jstate \<Rightarrow> string \<Rightarrow> 'h \<Rightarrow> reader \<Rightarrow> char \<Rightarrow> 'h step" where
  "Stream_byte handler stateJSONSeekingObjectStart keyBuffer hs rd b =
     (if b = CHR ''{'' then Continue stateJSONSeekingKeyStart keyBuffer hs rd
      else if \<not> isWhitespace b then
        Return (Some (ContextError (UnexpectedCharacter b stateJSONSeekingObjectStart))) hs
      else Continue stateJSONSeekingObjectStart keyBuffer hs rd)"
| "Stream_byte handler stateJSONSeekingKeyStart keyBuffer hs rd b =
     (if b = CHR 0x22 then Continue stateJSONSeekingKeyEnd [] hs rd
      else if \<not> isWhitespace b then
        Return (Some (ContextError (UnexpectedCharacter b stateJSONSeekingKeyStart))) hs
      else Continue stateJSONSeekingKeyStart keyBuffer hs rd)"
| "Stream_byte handler stateJSONSeekingKeyEnd keyBuffer hs rd b =
     (if b = CHR 0x5C then Return (Some (ContextError UnsupportedEscapedCharacter)) hs
      else if b = CHR 0x22 then Continue stateJSONSeekingColon keyBuffer hs rd
      else Continue stateJSONSeekingKeyEnd (keyBuffer @ [b]) hs rd)"
| "Stream_byte handler stateJSONSeekingColon keyBuffer hs rd b =
     (if b = CHR '':'' then Continue stateJSONSeekingStringValueStart keyBuffer hs rd
      else if \<not> isWhitespace b then
        Return (Some (ContextError (UnexpectedCharacter b stateJSONSeekingColon))) hs
      else Continue stateJSONSeekingColon keyBuffer hs rd)"
| "Stream_byte handler stateJSONSeekingStringValueStart keyBuffer hs rd b =
     (if b = CHR 0x22 then
        (case handler hs keyBuffer \<lparr>eof = False, reader = rd\<rparr> of
           ((continueStreaming, Some err), hs', valueStreamer) \<Rightarrow> Return (Some (ContextError err)) hs'
         | ((continueStreaming, None), hs', valueStreamer) \<Rightarrow>
             if \<not> continueStreaming then Return None hs'
             else Continue stateJSONSeekingNextPair keyBuffer hs' (reader valueStreamer))
      else if \<not> isWhitespace b then
        Return (Some (ContextError (UnexpectedCharacter b stateJSONSeekingStringValueStart))) hs
      else Continue stateJSONSeekingStringValueStart keyBuffer hs rd)"
| "Stream_byte handler stateJSONSeekingNextPair keyBuffer hs rd b =
     (if b = CHR '','' then Continue stateJSONSeekingKeyStart keyBuffer hs rd
      else if b = CHR ''}'' then Continue stateJSONObjectEnd keyBuffer hs rd
      else if \<not> isWhitespace b then
        Return (Some (ContextError (UnexpectedCharacter b stateJSONSeekingNextPair))) hs
      else Continue stateJSONSeekingNextPair keyBuffer hs rd)"
| "Stream_byte handler stateJSONObjectEnd keyBuffer hs rd b =
     (if \<not> isWhitespace b then
        Return (Some (ContextError (UnexpectedCharacter b stateJSONObjectEnd))) hs
      else Continue stateJSONObjectEnd keyBuffer hs rd)"
| "Stream_byte handler stateJSONSeekingStringValueEnd keyBuffer hs rd b =
     Return (Some (ContextError UnexpectedState)) hs"

partial_function (option) Stream_loop ::
  "'h handler \<Rightarrow> jstate \<Rightarrow> string \<Rightarrow> 'h \<Rightarrow> reader \<Rightarrow> (error option \<times> 'h) option" where
  "Stream_loop handler state keyBuffer hs rd =
     (case reader_Read rd of (r, rd1) \<Rightarrow>
        (case (case r of Read1 b readErr \<Rightarrow> Stream_byte handler state keyBuffer hs rd1 b
                       | Read0 readErr \<Rightarrow> Continue state keyBuffer hs rd1) of
           Return result hs' \<Rightarrow> Some (result, hs')
         | Continue state' keyBuffer' hs' rd2 \<Rightarrow>
             (case read_err r of
                Some readErr \<Rightarrow>
                  if readErr = EOF then
                    (if state' \<noteq> stateJSONObjectEnd
                     then Some (Some (ContextError UnexpectedEOFBeforeObjectEnd), hs')
                     else Some (None, hs'))
                  else Some (Some (ContextError readErr), hs')
              | None \<Rightarrow> Stream_loop handler state' keyBuffer' hs' rd2)))"


declare Stream_loop.simps [code]

definition Stream :: "'h handler \<Rightarrow> 'h \<Rightarrow> reader \<Rightarrow> (error option \<times> 'h) option" where
  "Stream handler hs rd = Stream_loop handler stateJSONSeekingObjectStart [] hs rd"

subsection \<open>Library loops over a value reader: io.Copy and ioutil.ReadAll\<close>

declare Read_from.simps [simp del]

lemma Read_from_consumes:
  "Read_from s p i = ((n, None), q, s') \<Longrightarrow> i \<le> length p \<Longrightarrow>
     length (reader s') + length p = length (reader s) + i"
proof (induction s p i rule: Read_from.induct)
  case (1 streamer p i)
  show ?case
  proof (cases "i < length p")
    case False
    with "1.prems" show ?thesis by (subst (asm) Read_from.simps) simp
  next
    case True
    note lt = True
    show ?thesis
    proof (cases "reader streamer")
      case Nil
      with lt "1.prems" show ?thesis by (subst (asm) Read_from.simps) simp
    next
      case (Cons r rd)
      show ?thesis
      proof (cases r)
        case (Read0 readErr)
        show ?thesis
        proof (cases readErr)
          case (Some e)
          with lt Cons Read0 "1.prems" show ?thesis by (subst (asm) Read_from.simps) simp
        next
          case None
          with lt Cons Read0 "1.prems"
          have rec: "Read_from (streamer\<lparr>reader := rd\<rparr>) p (Suc i) = ((n, None), q, s')"
            by (subst (asm) Read_from.simps) simp
          have "length (reader s') + length p = length (reader (streamer\<lparr>reader := rd\<rparr>)) + Suc i"
            using "1.IH"(2)[OF lt _ _ _ rec] Cons Read0 None lt by simp
          with Cons show ?thesis by simp
        qed
      next
        case (Read1 b readErr)
        show ?thesis
        proof (cases "b = CHR 0x22 \<or> b = CHR 0x5C \<or> readErr \<noteq> None")
          case True
          with lt Cons Read1 "1.prems" show ?thesis
            by (subst (asm) Read_from.simps) (auto split: if_splits)
        next
          case False
          with lt Cons Read1 "1.prems"
          have rec: "Read_from (streamer\<lparr>reader := rd\<rparr>) (p[i := b]) (Suc i) = ((n, None), q, s')"
            by (subst (asm) Read_from.simps) simp
          from False lt have nn: "p[i := b] ! i \<noteq> CHR 0x22" "p[i := b] ! i \<noteq> CHR 0x5C" "\<not> readErr \<noteq> None"
            by auto
          have "length (reader s') + length (p[i := b]) =
                length (reader (streamer\<lparr>reader := rd\<rparr>)) + Suc i"
            using "1.IH"(1)[OF lt _ _ nn rec] Cons Read1 lt by simp
          with Cons show ?thesis by simp
        qed
      qed
    qed
  qed
qed

lemma Read_progress:
  assumes "Read s (b # bs) = ((n, None), q, s')"
  shows "length (reader s') < length (reader s)"
proof -
  from assms have rf: "Read_from s (b # bs) 0 = ((n, None), q, s')"
    by (auto simp: Read_def split: if_splits)
  from Read_from_consumes[OF rf] show ?thesis by simp
qed

text \<open>
  \<open>io.Copy(hash, value)\<close> and \<open>ioutil.ReadAll(value)\<close> both call \<open>value.Read\<close> with a
  non-empty buffer until it reports an error; what each call read is appended to the
  destination, and \<open>io.EOF\<close> ends the loop without error. \<open>read_chunks\<close> is that loop:
  the buffer of the next call is \<open>b # bs\<close>, \<open>dst\<close> is what the destination holds.
  \<open>io.Copy\<close> allocates one buffer of 32 KiB and reuses it (\<open>reuse\<close>); \<open>ioutil.ReadAll\<close>
  reads into the unused, zeroed part of a growing buffer, 512 bytes at first. What a
  buffer holds before a call shows only when the source returns \<open>(0, nil)\<close>.
\<close>

function read_chunks ::
  "bool \<times> char \<times> string \<Rightarrow> limitedJSONValueStreamer \<Rightarrow> string \<Rightarrow>
     (string \<times> error option) \<times> limitedJSONValueStreamer" where
  "read_chunks (reuse, b, bs) src dst =
     (let r = Read src (b # bs); nr = fst (fst r); er = snd (fst r); buf = fst (snd r); src' = snd (snd r) in
      if er = Some EOF then ((dst @ take nr buf, None), src')
      else if er \<noteq> None then ((dst @ take nr buf, er), src')
      else read_chunks
             (reuse, if reuse then hd buf else CHR 0x00, if reuse then tl buf else replicate (length bs) (CHR 0x00))
             src' (dst @ take nr buf))"
  by pat_completeness auto
termination
proof (relation "measure (\<lambda>(n, src, dst). length (reader src))", goal_cases)
  case 1
  show ?case by simp
next
  case (2 reuse b bs src dst r nr er buf src')
  then have "Read src (b # bs) = ((nr, None), buf, src')"
    by (simp add: prod_eq_iff)
  from Read_progress[OF this] show ?case by simp
qed

definition io_Copy :: "string \<Rightarrow> limitedJSONValueStreamer \<Rightarrow> (string \<times> error option) \<times> limitedJSONValueStreamer" where
  "io_Copy dst src = read_chunks (True, CHR 0x00, replicate 32767 (CHR 0x00)) src dst"

definition ioutil_ReadAll :: "limitedJSONValueStreamer \<Rightarrow> (string \<times> error option) \<times> limitedJSONValueStreamer" where
  "ioutil_ReadAll r = read_chunks (False, CHR 0x00, replicate 511 (CHR 0x00)) r []"

subsection \<open>The Go standard library and the file system, as parameters\<close>

text \<open>
  The cryptography, the codecs and the file system are not part of the repository. They are
  the fields of a record, so that every theorem below holds for every implementation of
  them. An opened file is its contents. \<open>zlib_NewReader\<close> gives the decompressor as the
  sequence of results of its one-byte reads (a header error is \<open>Inl\<close>). A hash under
  construction (\<open>sha256.New\<close>) is the string written to it so far, and \<open>hash.Sum\<close> is
  \<open>sha256_Sum256\<close> of that string. \<open>json_Unmarshal\<close> gives the value of the pointer
  \<open>authenticatedDataPackage\<close> after decoding: \<open>None\<close> is the nil pointer.

  Modelled from the spec: \<open>Compress\<close> is defined elsewhere in the repository (zlib with
  default settings); it is a field of the record too.
\<close>

datatype 'pub publicKey = RSAPublicKey 'pub | OtherPublicKey

record AuthenticatedDataPackage =
  Data :: string
  SigningPublicKeyDigest :: string
  Signature :: string

record ('pub, 'priv) library =
  sha256_Sum256 :: "string \<Rightarrow> string"
  base64_EncodeToString :: "string \<Rightarrow> string"
  base64_DecodeString :: "string \<Rightarrow> error + string"
  rsa_GenerateKey :: "error + 'priv"
  rsa_Public :: "'priv \<Rightarrow> 'pub"
  x509_MarshalPKIXPublicKey :: "'pub \<Rightarrow> error + string"
  x509_MarshalPKCS1PrivateKey :: "'priv \<Rightarrow> string"
  x509_ParsePKIXPublicKey :: "string \<Rightarrow> error + 'pub publicKey"
  x509_ParsePKCS1PrivateKey :: "string \<Rightarrow> error + 'priv"
  rsa_SignPKCS1v15 :: "'priv \<Rightarrow> string \<Rightarrow> error + string"
  rsa_VerifyPKCS1v15 :: "'pub \<Rightarrow> string \<Rightarrow> string \<Rightarrow> error option"
  json_Marshal :: "AuthenticatedDataPackage \<Rightarrow> error + string"
  json_Unmarshal :: "string \<Rightarrow> error + AuthenticatedDataPackage option"
  zlib_NewReader :: "string \<Rightarrow> error + reader"
  Compress :: "string \<Rightarrow> string"
  os_Open :: "string \<Rightarrow> error + string"
  file_Seek :: "string \<Rightarrow> error option"

text \<open>
  \<open>ioutil.ReadAll\<close> on the decompressor itself: every byte read, up to \<open>io.EOF\<close>; any
  other error is returned.
\<close>

fun reader_ReadAll :: "reader \<Rightarrow> string \<Rightarrow> error + string" where
  "reader_ReadAll [] buf = Inr buf"
| "reader_ReadAll (Read1 b None # rd) buf = reader_ReadAll rd (buf @ [b])"
| "reader_ReadAll (Read1 b (Some e) # rd) buf = (if e = EOF then Inr (buf @ [b]) else Inl e)"
| "reader_ReadAll (Read0 None # rd) buf = reader_ReadAll rd buf"
| "reader_ReadAll (Read0 (Some e) # rd) buf = (if e = EOF then Inr buf else Inl e)"

text \<open>
  Modelled from the spec: \<open>Decompress\<close> is defined elsewhere in the repository. It reads
  a zlib stream to its end and surfaces the decoder's errors, the trailing checksum
  failure included.
\<close>

definition Decompress :: "('pub, 'priv) library \<Rightarrow> string \<Rightarrow> error + string" where
  "Decompress L data =
     (case zlib_NewReader L data of
        Inl err \<Rightarrow> Inl (ContextError err)
      | Inr rd \<Rightarrow>
          (case reader_ReadAll rd [] of
             Inl err \<Rightarrow> Inl (ContextError err)
           | Inr uncompressedData \<Rightarrow> Inr uncompressedData))"

subsection \<open>Keys, writer and in-memory reader\<close>

definition GenerateAuthenticatedDataPackageKeys :: "('pub, 'priv) library \<Rightarrow> error + string \<times> string" where
  "GenerateAuthenticatedDataPackageKeys L =
     (case rsa_GenerateKey L of
        Inl err \<Rightarrow> Inl (ContextError err)
      | Inr rsaKey \<Rightarrow>
          (case x509_MarshalPKIXPublicKey L (rsa_Public L rsaKey) of
             Inl err \<Rightarrow> Inl (ContextError err)
           | Inr publicKeyBytes \<Rightarrow>
               Inr (base64_EncodeToString L publicKeyBytes,
                    base64_EncodeToString L (x509_MarshalPKCS1PrivateKey L rsaKey))))"

definition sha256sum :: "('pub, 'priv) library \<Rightarrow> string \<Rightarrow> string" where
  "sha256sum L data = sha256_Sum256 L data"

definition WriteAuthenticatedDataPackage ::
  "('pub, 'priv) library \<Rightarrow> string \<Rightarrow> string \<Rightarrow> string \<Rightarrow> error + string" where
  "WriteAuthenticatedDataPackage L data signingPublicKey signingPrivateKey =
     (case base64_DecodeString L signingPrivateKey of
        Inl err \<Rightarrow> Inl (ContextError err)
      | Inr derEncodedPrivateKey \<Rightarrow>
     (case x509_ParsePKCS1PrivateKey L derEncodedPrivateKey of
        Inl err \<Rightarrow> Inl (ContextError err)
      | Inr rsaPrivateKey \<Rightarrow>
     (case rsa_SignPKCS1v15 L rsaPrivateKey (sha256sum L data) of
        Inl err \<Rightarrow> Inl (ContextError err)
      | Inr signature \<Rightarrow>
     (case json_Marshal L
             \<lparr>Data = data,
              SigningPublicKeyDigest = sha256sum L signingPublicKey,
              Signature = signature\<rparr> of
        Inl err \<Rightarrow> Inl (ContextError err)
      | Inr packageJSON \<Rightarrow> Inr (Compress L packageJSON)))))"

text \<open>
  A Go function either returns or panics. \<open>ReadAuthenticatedDataPackage\<close> reads the fields
  of \<open>authenticatedDataPackage\<close> through the pointer, which panics when the pointer is nil.
\<close>

datatype 'a outcome = Panics | Returns 'a

definition ReadAuthenticatedDataPackage ::
  "('pub, 'priv) library \<Rightarrow> string \<Rightarrow> string \<Rightarrow> (error + string) outcome" where
  "ReadAuthenticatedDataPackage L compressedPackage signingPublicKey =
     (case Decompress L compressedPackage of
        Inl err \<Rightarrow> Returns (Inl (ContextError err))
      | Inr packageJSON \<Rightarrow>
     (case json_Unmarshal L packageJSON of
        Inl err \<Rightarrow> Returns (Inl (ContextError err))
      | Inr authenticatedDataPackage \<Rightarrow>
     (case base64_DecodeString L signingPublicKey of
        Inl err \<Rightarrow> Returns (Inl (ContextError err))
      | Inr derEncodedPublicKey \<Rightarrow>
     (case x509_ParsePKIXPublicKey L derEncodedPublicKey of
        Inl err \<Rightarrow> Returns (Inl (ContextError err))
      | Inr OtherPublicKey \<Rightarrow> Returns (Inl (ContextError UnexpectedSigningPublicKeyType))
      | Inr (RSAPublicKey rsaPublicKey) \<Rightarrow>
     (case authenticatedDataPackage of
        None \<Rightarrow> Panics
      | Some pkg \<Rightarrow>
          if SigningPublicKeyDigest pkg \<noteq> sha256sum L signingPublicKey
          then Returns (Inl (ContextError UnexpectedSigningPublicKeyDigest))
          else
            (case rsa_VerifyPKCS1v15 L rsaPublicKey (sha256sum L (Data pkg)) (Signature pkg) of
               Some err \<Rightarrow> Returns (Inl (ContextError err))
             | None \<Rightarrow> Returns (Inr (Data pkg))))))))"

subsection \<open>The streaming verifier\<close>

text \<open>The variables of one pass that the closure \<open>jsonHandler\<close> captures.\<close>

record passVars =
  hash :: string
  jsonData :: "limitedJSONValueStreamer option"
  jsonSigningPublicKey :: "string option"
  jsonSignature :: "string option"

definition jsonReadBase64Value ::
  "('pub, 'priv) library \<Rightarrow> limitedJSONValueStreamer \<Rightarrow> (error + string) \<times> limitedJSONValueStreamer" where
  "jsonReadBase64Value L v =
     (case ioutil_ReadAll v of
        ((base64Value, Some err), v') \<Rightarrow> (Inl (ContextError err), v')
      | ((base64Value, None), v') \<Rightarrow>
          (case base64_DecodeString L base64Value of
             Inl err \<Rightarrow> (Inl (ContextError err), v')
           | Inr decodedValue \<Rightarrow> (Inr decodedValue, v')))"

definition jsonHandler :: "('pub, 'priv) library \<Rightarrow> nat \<Rightarrow> passVars handler" where
  "jsonHandler L pass vars key v =
     (if key = ''data'' then
        (if pass = 0 then
           (case io_Copy (hash vars) v of
              ((h, Some err), v') \<Rightarrow> ((False, Some (ContextError err)), vars\<lparr>hash := h\<rparr>, v')
            | ((h, None), v') \<Rightarrow> ((True, None), vars\<lparr>hash := h\<rparr>, v'))
         else ((False, None), vars\<lparr>jsonData := Some v\<rparr>, v))
      else if key = ''signingPublicKeyDigest'' then
        (case jsonReadBase64Value L v of
           (Inl err, v') \<Rightarrow> ((False, Some (ContextError err)), vars\<lparr>jsonSigningPublicKey := None\<rparr>, v')
         | (Inr d, v') \<Rightarrow> ((True, None), vars\<lparr>jsonSigningPublicKey := Some d\<rparr>, v'))
      else if key = ''signature'' then
        (case jsonReadBase64Value L v of
           (Inl err, v') \<Rightarrow> ((False, Some (ContextError err)), vars\<lparr>jsonSignature := None\<rparr>, v')
         | (Inr d, v') \<Rightarrow> ((True, None), vars\<lparr>jsonSignature := Some d\<rparr>, v'))
      else ((False, Some (ContextError (UnexpectedKey key))), vars, v))"

definition initialVars :: passVars where
  "initialVars = \<lparr>hash = [], jsonData = None, jsonSigningPublicKey = None, jsonSignature = None\<rparr>"

text \<open>
  The checks that follow \<open>jsonStreamer.Stream()\<close> in pass 0: both fields seen, the key
  decodes to an RSA key, the digest equals the digest of the key string, the signature
  verifies over the hash of what was written to \<open>hash\<close>.
\<close>

definition verifyPass0 :: "('pub, 'priv) library \<Rightarrow> string \<Rightarrow> passVars \<Rightarrow> error option" where
  "verifyPass0 L signingPublicKey vars =
     (case (jsonSigningPublicKey vars, jsonSignature vars) of
        (Some digest, Some signature) \<Rightarrow>
          (case base64_DecodeString L signingPublicKey of
             Inl err \<Rightarrow> Some (ContextError err)
           | Inr derEncodedPublicKey \<Rightarrow>
          (case x509_ParsePKIXPublicKey L derEncodedPublicKey of
             Inl err \<Rightarrow> Some (ContextError err)
           | Inr OtherPublicKey \<Rightarrow> Some (ContextError UnexpectedSigningPublicKeyType)
           | Inr (RSAPublicKey rsaPublicKey) \<Rightarrow>
               if digest \<noteq> sha256sum L signingPublicKey
               then Some (ContextError UnexpectedSigningPublicKeyDigest)
               else
                 (case rsa_VerifyPKCS1v15 L rsaPublicKey (sha256_Sum256 L (hash vars)) signature of
                    Some err \<Rightarrow> Some (ContextError err)
                  | None \<Rightarrow> None)))
      | _ \<Rightarrow> Some (ContextError MissingExpectedField))"

text \<open>
  One iteration of \<open>for pass := 0; pass < 2; pass++\<close>. The result is \<open>Inl\<close> for a
  \<open>return nil, err\<close> and \<open>Inr\<close> of the variable \<open>payload\<close> when the iteration ends.
\<close>

definition passBody ::
  "('pub, 'priv) library \<Rightarrow> string \<Rightarrow> string \<Rightarrow> nat \<Rightarrow> limitedJSONValueStreamer option \<Rightarrow>
     (error + limitedJSONValueStreamer option) option" where
  "passBody L file signingPublicKey pass payload =
     (case file_Seek L file of
        Some err \<Rightarrow> Some (Inl (ContextError err))
      | None \<Rightarrow>
     (case zlib_NewReader L file of
        Inl err \<Rightarrow> Some (Inl (ContextError err))
      | Inr decompressor \<Rightarrow>
     (case Stream (jsonHandler L pass) initialVars decompressor of
        None \<Rightarrow> None
      | Some (Some err, vars) \<Rightarrow> Some (Inl (ContextError err))
      | Some (None, vars) \<Rightarrow>
          if pass = 0 then
            (case verifyPass0 L signingPublicKey vars of
               Some err \<Rightarrow> Some (Inl err)
             | None \<Rightarrow> Some (Inr payload))
          else
            (case jsonData vars of
               None \<Rightarrow> Some (Inl (ContextError MissingExpectedField))
             | Some v \<Rightarrow> Some (Inr (Some v))))))"

function passLoop ::
  "('pub, 'priv) library \<Rightarrow> string \<Rightarrow> string \<Rightarrow> nat \<Rightarrow> limitedJSONValueStreamer option \<Rightarrow>
     (error + limitedJSONValueStreamer option) option" where
  "passLoop L file signingPublicKey pass payload =
     (if pass < 2 then
        (case passBody L file signingPublicKey pass payload of
           None \<Rightarrow> None
         | Some (Inl err) \<Rightarrow> Some (Inl err)
         | Some (Inr payload') \<Rightarrow> passLoop L file signingPublicKey (Suc pass) payload')
      else Some (Inr payload))"
  by pat_completeness auto
termination
  by (relation "measure (\<lambda>(L, file, signingPublicKey, pass, payload). 2 - pass)") auto

definition StreamingReadAuthenticatedDataPackage ::
  "('pub, 'priv) library \<Rightarrow> string \<Rightarrow> string \<Rightarrow> (error + limitedJSONValueStreamer option) option" where
  "StreamingReadAuthenticatedDataPackage L packageFileName signingPublicKey =
     (case os_Open L packageFileName of
        Inl err \<Rightarrow> Some (Inl (ContextError err))
      | Inr file \<Rightarrow> passLoop L file signingPublicKey 0 None)"

subsection \<open>A small executable library, for running the model on concrete inputs\<close>

text \<open>
  The theorems below hold for every \<open>library\<close>. To run the definitions on concrete
  packages, \<open>toy_library\<close> fills the record with small executable functions that need
  no arithmetic. Base64 is the identity on strings over the base64 alphabet (all that the
  other functions produce). A digest is \<open>h\<close> followed by the string reversed, bytes
  outside the alphabet replaced by \<open>x\<close>; a key is one character, and the signature of a
  hashed value is \<open>s\<close>, the key and the hashed value. JSON is an encoder and a decoder for
  flat objects of strings with the escapes of quote and backslash, the literal \<open>null\<close>,
  and the replacement character U+FFFD for the bytes FE and FF, which no UTF-8 text
  holds. The zlib stream of a string is the byte \<open>z\<close> followed by the string. The file
  system is an association list from names to contents.
\<close>

definition b64_alphabet :: string where
  "b64_alphabet = ''ABCDEFGHIJKLMNOPQRSTUVWXYZabcdefghijklmnopqrstuvwxyz0123456789+/''"

definition toy_b64_decode :: "string \<Rightarrow> error + string" where
  "toy_b64_decode s =
     (if list_all (\<lambda>c. c \<in> set b64_alphabet) s then Inr s
      else Inl (LibraryError ''illegal base64 data''))"

definition toy_sum256 :: "string \<Rightarrow> string" where
  "toy_sum256 s = CHR ''h'' # map (\<lambda>c. if c \<in> set b64_alphabet then c else CHR ''x'') (rev s)"

definition toy_sign :: "char \<Rightarrow> string \<Rightarrow> string" where
  "toy_sign k hashed = CHR ''s'' # k # hashed"

definition toy_verify :: "char \<Rightarrow> string \<Rightarrow> string \<Rightarrow> error option" where
  "toy_verify k hashed sig =
     (if sig = toy_sign k hashed then None else Some (LibraryError ''crypto/rsa: verification error''))"

definition toy_parse_public :: "string \<Rightarrow> error + char publicKey" where
  "toy_parse_public der =
     (case der of
        [p, u, b, k] \<Rightarrow>
          if [p, u, b] = ''RSA'' then Inr (RSAPublicKey k)
          else if [p, u, b] = ''DSA'' then Inr OtherPublicKey
          else Inl (LibraryError ''asn1: structure error'')
      | _ \<Rightarrow> Inl (LibraryError ''asn1: structure error''))"

definition toy_parse_private :: "string \<Rightarrow> error + char" where
  "toy_parse_private der =
     (case der of
        [p, r, v, k] \<Rightarrow>
          if [p, r, v] = ''PRV'' then Inr k
          else Inl (LibraryError ''asn1: structure error'')
      | _ \<Rightarrow> Inl (LibraryError ''asn1: structure error''))"

datatype jtoken = TSym char | TStr string

datatype lexmode = Outside | InString string | Escaped string | Unicode string string

fun toy_lex :: "lexmode \<Rightarrow> string \<Rightarrow> jtoken list option" where
  "toy_lex Outside [] = Some []"
| "toy_lex Outside (c # cs) =
     (if c = CHR 0x22 then toy_lex (InString []) cs
      else if isWhitespace c then toy_lex Outside cs
      else map_option ((#) (TSym c)) (toy_lex Outside cs))"
| "toy_lex (InString acc) (c # cs) =
     (if c = CHR 0x22 then map_option ((#) (TStr acc)) (toy_lex Outside cs)
      else if c = CHR 0x5C then toy_lex (Escaped acc) cs
      else toy_lex (InString (acc @ [c])) cs)"
| "toy_lex (Escaped acc) (c # cs) =
     (if c = CHR 0x22 \<or> c = CHR 0x5C then toy_lex (InString (acc @ [c])) cs
      else if c = CHR ''u'' then toy_lex (Unicode acc []) cs
      else None)"
| "toy_lex (Unicode acc hex) (c # cs) =
     (if length hex < 3 then toy_lex (Unicode acc (hex @ [c])) cs
      else if hex @ [c] = ''fffd'' then toy_lex (InString (acc @ [CHR 0xEF, CHR 0xBF, CHR 0xBD])) cs
      else None)"
| "toy_lex (InString acc) [] = None"
| "toy_lex (Escaped acc) [] = None"
| "toy_lex (Unicode acc hex) [] = None"

fun toy_members :: "jtoken list \<Rightarrow> (string \<times> string) list option" where
  "toy_members [TStr k, TSym c, TStr v, TSym e] =
     (if c = CHR '':'' \<and> e = CHR ''}'' then Some [(k, v)] else None)"
| "toy_members (TStr k # TSym c # TStr v # TSym e # rest) =
     (if c = CHR '':'' \<and> e = CHR '','' then map_option ((#) (k, v)) (toy_members rest) else None)"
| "toy_members _ = None"

fun toy_fill :: "(string \<times> string) list \<Rightarrow> AuthenticatedDataPackage \<Rightarrow> error + AuthenticatedDataPackage" where
  "toy_fill [] pkg = Inr pkg"
| "toy_fill ((k, v) # kvs) pkg =
     (if k = ''data'' then toy_fill kvs (pkg\<lparr>Data := v\<rparr>)
      else if k = ''signingPublicKeyDigest'' then
        (case toy_b64_decode v of
           Inl e \<Rightarrow> Inl e
         | Inr d \<Rightarrow> toy_fill kvs (pkg\<lparr>SigningPublicKeyDigest := d\<rparr>))
      else if k = ''signature'' then
        (case toy_b64_decode v of
           Inl e \<Rightarrow> Inl e
         | Inr d \<Rightarrow> toy_fill kvs (pkg\<lparr>Signature := d\<rparr>))
      else toy_fill kvs pkg)"

definition toy_json_Unmarshal :: "string \<Rightarrow> error + AuthenticatedDataPackage option" where
  "toy_json_Unmarshal doc =
     (case toy_lex Outside doc of
        None \<Rightarrow> Inl (LibraryError ''invalid character'')
      | Some toks \<Rightarrow>
          if toks = map TSym ''null'' then Inr None
          else if toks = map TSym ''{}'' then
            Inr (Some \<lparr>Data = [], SigningPublicKeyDigest = [], Signature = []\<rparr>)
          else
            (case toks of
               TSym c # rest \<Rightarrow>
                 (if c = CHR ''{'' then
                    (case toy_members rest of
                       None \<Rightarrow> Inl (LibraryError ''invalid character'')
                     | Some kvs \<Rightarrow>
                         (case toy_fill kvs \<lparr>Data = [], SigningPublicKeyDigest = [], Signature = []\<rparr> of
                            Inl e \<Rightarrow> Inl e
                          | Inr pkg \<Rightarrow> Inr (Some pkg)))
                  else Inl (LibraryError ''cannot unmarshal''))
             | _ \<Rightarrow> Inl (LibraryError ''cannot unmarshal'')))"

fun toy_escape :: "string \<Rightarrow> string" where
  "toy_escape [] = []"
| "toy_escape (c # cs) =
     (if c = CHR 0x22 \<or> c = CHR 0x5C then CHR 0x5C # c # toy_escape cs
      else if c = CHR 0xFE \<or> c = CHR 0xFF then CHR 0x5C # ''ufffd'' @ toy_escape cs
      else c # toy_escape cs)"

definition toy_json_Marshal :: "AuthenticatedDataPackage \<Rightarrow> error + string" where
  "toy_json_Marshal pkg =
     Inr ([CHR ''{'', CHR 0x22] @ ''data'' @ [CHR 0x22, CHR '':'', CHR 0x22] @ toy_escape (Data pkg)
          @ [CHR 0x22, CHR '','', CHR 0x22] @ ''signingPublicKeyDigest'' @ [CHR 0x22, CHR '':'', CHR 0x22]
          @ SigningPublicKeyDigest pkg
          @ [CHR 0x22, CHR '','', CHR 0x22] @ ''signature'' @ [CHR 0x22, CHR '':'', CHR 0x22]
          @ Signature pkg @ [CHR 0x22, CHR ''}''])"

definition toy_zlib_NewReader :: "string \<Rightarrow> error + reader" where
  "toy_zlib_NewReader s =
     (case s of
        [] \<Rightarrow> Inl (LibraryError ''unexpected EOF'')
      | c # cs \<Rightarrow> if c = CHR ''z'' then Inr (plain cs) else Inl (LibraryError ''zlib: invalid header''))"

definition toy_library :: "(string \<times> string) list \<Rightarrow> (char, char) library" where
  "toy_library fs =
     \<lparr>sha256_Sum256 = toy_sum256,
      base64_EncodeToString = (\<lambda>s. s),
      base64_DecodeString = toy_b64_decode,
      rsa_GenerateKey = Inr (CHR ''k''),
      rsa_Public = (\<lambda>k. k),
      x509_MarshalPKIXPublicKey = (\<lambda>k. Inr (''RSA'' @ [k])),
      x509_MarshalPKCS1PrivateKey = (\<lambda>k. ''PRV'' @ [k]),
      x509_ParsePKIXPublicKey = toy_parse_public,
      x509_ParsePKCS1PrivateKey = toy_parse_private,
      rsa_SignPKCS1v15 = (\<lambda>k hashed. Inr (toy_sign k hashed)),
      rsa_VerifyPKCS1v15 = toy_verify,
      json_Marshal = toy_json_Marshal,
      json_Unmarshal = toy_json_Unmarshal,
      zlib_NewReader = toy_zlib_NewReader,
      Compress = (\<lambda>s. CHR ''z'' # s),
      os_Open = (\<lambda>name. case map_of fs name of
                          None \<Rightarrow> Inl (LibraryError ''open: no such file or directory'')
                        | Some contents \<Rightarrow> Inr contents),
      file_Seek = (\<lambda>file. None)\<rparr>"

section \<open>The value stream reader\<close>



text \<open>A run of bytes with neither a quote nor a backslash: the inside of a string.\<close>

definition clean :: "string \<Rightarrow> bool" where
  "clean bs = (\<forall>b\<in>set bs. b \<noteq> CHR 0x22 \<and> b \<noteq> CHR 0x5C)"

text \<open>The buffer \<open>p\<close> with the bytes \<open>xs\<close> written from index \<open>i\<close>.\<close>

definition fill :: "string \<Rightarrow> nat \<Rightarrow> string \<Rightarrow> string" where
  "fill p i xs = take i p @ xs @ drop (i + length xs) p"

lemma fill_Nil: "fill p i [] = p"
  by (simp add: fill_def)

lemma fill_Cons: "i < length p \<Longrightarrow> fill (p[i := b]) (Suc i) bs = fill p i (b # bs)"
  by (simp add: fill_def take_Suc_conv_app_nth)

lemma fill_update: "i < length p \<Longrightarrow> p[i := b] = fill p i [b]"
  by (simp add: fill_def upd_conv_take_nth_drop)

lemma length_fill: "i + length xs \<le> length p \<Longrightarrow> length (fill p i xs) = length p"
  by (simp add: fill_def)

lemma fill_whole: "length xs = length p \<Longrightarrow> fill p 0 xs = xs"
  by (simp add: fill_def)

lemma take_fill: "length xs < length p \<Longrightarrow> take (length xs) ((fill p 0 xs)[length xs := c]) = xs"
  by (simp add: fill_def)

lemma Read_from_full: "length p \<le> i \<Longrightarrow> Read_from s p i = ((i, None), p, s)"
  by (subst Read_from.simps) simp

lemma Read_from_byte:
  "i < length p \<Longrightarrow> b \<noteq> CHR 0x22 \<Longrightarrow> b \<noteq> CHR 0x5C \<Longrightarrow> reader s = Read1 b None # rd \<Longrightarrow>
   Read_from s p i = Read_from (s\<lparr>reader := rd\<rparr>) (p[i := b]) (Suc i)"
  by (subst Read_from.simps) simp

lemma Read_from_quote:
  "i < length p \<Longrightarrow> reader s = Read1 (CHR 0x22) e # rd \<Longrightarrow>
   Read_from s p i = ((i, Some EOF), p[i := CHR 0x22], s\<lparr>eof := True, reader := rd\<rparr>)"
  by (subst Read_from.simps) simp

lemma Read_from_backslash:
  "i < length p \<Longrightarrow> reader s = Read1 (CHR 0x5C) e # rd \<Longrightarrow>
   Read_from s p i =
     ((i, Some (ContextError UnsupportedEscapedCharacter)), p[i := CHR 0x5C], s\<lparr>reader := rd\<rparr>)"
  by (subst Read_from.simps) simp

lemma Read_from_plain:
  "clean bs \<Longrightarrow> i + length bs \<le> length p \<Longrightarrow> reader s = plain bs @ rd \<Longrightarrow>
   Read_from s p i = Read_from (s\<lparr>reader := rd\<rparr>) (fill p i bs) (i + length bs)"
proof (induction bs arbitrary: p i s)
  case Nil
  then have "s\<lparr>reader := rd\<rparr> = s" by (simp add: plain_Nil)
  then show ?case by (simp add: fill_Nil)
next
  case (Cons b bs)
  from Cons.prems have b: "b \<noteq> CHR 0x22" "b \<noteq> CHR 0x5C" and cl: "clean bs"
    by (simp_all add: clean_def)
  from Cons.prems have rd: "reader s = Read1 b None # (plain bs @ rd)" and lt: "i < length p"
    by (simp_all add: plain_Cons)
  have "Read_from s p i = Read_from (s\<lparr>reader := plain bs @ rd\<rparr>) (p[i := b]) (Suc i)"
    by (rule Read_from_byte[OF lt b rd])
  also have "\<dots> = Read_from (s\<lparr>reader := plain bs @ rd\<rparr>\<lparr>reader := rd\<rparr>)
                      (fill (p[i := b]) (Suc i) bs) (Suc i + length bs)"
    using Cons.prems by (intro Cons.IH[OF cl]) simp_all
  finally show ?case using lt by (simp add: fill_Cons)
qed

lemma Read_until_quote:
  assumes "clean bs" and "length bs < length p"
  shows "Read \<lparr>eof = False, reader = plain bs @ Read1 (CHR 0x22) e # rd\<rparr> p =
           ((length bs, Some EOF), (fill p 0 bs)[length bs := CHR 0x22], \<lparr>eof = True, reader = rd\<rparr>)"
proof -
  let ?s = "\<lparr>eof = False, reader = plain bs @ Read1 (CHR 0x22) e # rd\<rparr>"
  have "Read ?s p = Read_from ?s p 0"
    by (simp add: Read_def)
  also have "\<dots> = Read_from (?s\<lparr>reader := Read1 (CHR 0x22) e # rd\<rparr>) (fill p 0 bs) (0 + length bs)"
    using assms by (intro Read_from_plain) simp_all
  also have "\<dots> = ((length bs, Some EOF), (fill p 0 bs)[length bs := CHR 0x22], \<lparr>eof = True, reader = rd\<rparr>)"
    using assms(2) by (simp add: Read_from_quote length_fill)
  finally show ?thesis .
qed

lemma Read_until_backslash:
  assumes "clean bs" and "length bs < length p"
  shows "Read \<lparr>eof = False, reader = plain bs @ Read1 (CHR 0x5C) e # rd\<rparr> p =
           ((length bs, Some (ContextError UnsupportedEscapedCharacter)),
            (fill p 0 bs)[length bs := CHR 0x5C], \<lparr>eof = False, reader = rd\<rparr>)"
proof -
  let ?s = "\<lparr>eof = False, reader = plain bs @ Read1 (CHR 0x5C) e # rd\<rparr>"
  have "Read ?s p = Read_from ?s p 0"
    by (simp add: Read_def)
  also have "\<dots> = Read_from (?s\<lparr>reader := Read1 (CHR 0x5C) e # rd\<rparr>) (fill p 0 bs) (0 + length bs)"
    using assms by (intro Read_from_plain) simp_all
  also have "\<dots> = ((length bs, Some (ContextError UnsupportedEscapedCharacter)),
                     (fill p 0 bs)[length bs := CHR 0x5C], \<lparr>eof = False, reader = rd\<rparr>)"
    using assms(2) by (simp add: Read_from_backslash length_fill)
  finally show ?thesis .
qed

lemma clean_take: "clean bs \<Longrightarrow> clean (take n bs)"
  by (auto simp: clean_def dest: in_set_takeD)

lemma clean_drop: "clean bs \<Longrightarrow> clean (drop n bs)"
  by (auto simp: clean_def dest: in_set_dropD)

lemma Read_fills_buffer:
  assumes "clean bs" and "length p \<le> length bs"
  shows "Read \<lparr>eof = False, reader = plain bs @ rd\<rparr> p =
           ((length p, None), take (length p) bs, \<lparr>eof = False, reader = plain (drop (length p) bs) @ rd\<rparr>)"
proof -
  let ?s = "\<lparr>eof = False, reader = plain bs @ rd\<rparr>"
  let ?n = "length p"
  have split: "plain bs @ rd = plain (take ?n bs) @ (plain (drop ?n bs) @ rd)"
    by (simp flip: plain_append)
  have len: "length (take ?n bs) = ?n" using assms(2) by simp
  have "Read ?s p = Read_from ?s p 0"
    by (simp add: Read_def)
  also have "\<dots> = Read_from (?s\<lparr>reader := plain (drop ?n bs) @ rd\<rparr>) (fill p 0 (take ?n bs)) (0 + length (take ?n bs))"
    using assms split by (intro Read_from_plain clean_take) simp_all
  also have "\<dots> = ((?n, None), take ?n bs, \<lparr>eof = False, reader = plain (drop ?n bs) @ rd\<rparr>)"
    using len by (simp add: Read_from_full fill_whole)
  finally show ?thesis .
qed

lemma Read_after_eof:
  "Read \<lparr>eof = True, reader = rd\<rparr> p = ((0, Some EOF), p, \<lparr>eof = True, reader = rd\<rparr>)"
  by (simp add: Read_def)

declare read_chunks.simps [simp del]

lemma read_chunks_plain:
  assumes "clean bs"
    and cont: "\<And>p cs. clean cs \<Longrightarrow> length cs < length p \<Longrightarrow>
                 Read \<lparr>eof = False, reader = plain cs @ X\<rparr> p =
                   ((length cs, Some err), (fill p 0 cs)[length cs := c0], s')"
  shows "read_chunks n \<lparr>eof = False, reader = plain bs @ X\<rparr> dst =
           ((dst @ bs, if err = EOF then None else Some err), s')"
  using assms(1)
proof (induction "length bs" arbitrary: bs dst n rule: less_induct)
  case less
  obtain reuse b bf where n: "n = (reuse, b, bf)" by (cases n)
  show ?case
  proof (cases "length bs < length (b # bf)")
    case True
    from cont[OF less.prems True] take_fill[OF True, of c0] show ?thesis
      unfolding n by (subst read_chunks.simps) (simp add: Let_def)
  next
    case False
    then have le: "length (b # bf) \<le> length bs" by simp
    let ?k = "length (b # bf)"
    have r: "Read \<lparr>eof = False, reader = plain bs @ X\<rparr> (b # bf) =
               ((?k, None), take ?k bs, \<lparr>eof = False, reader = plain (drop ?k bs) @ X\<rparr>)"
      by (rule Read_fills_buffer[OF less.prems le])
    have tk: "take ?k (take ?k bs) = take ?k bs" by simp
    have "\<exists>n'. read_chunks n \<lparr>eof = False, reader = plain bs @ X\<rparr> dst =
          read_chunks n' \<lparr>eof = False, reader = plain (drop ?k bs) @ X\<rparr> (dst @ take ?k bs)"
      unfolding n by (subst read_chunks.simps) (simp only: r Let_def fst_conv snd_conv tk, simp, blast)
    then obtain n' where "read_chunks n \<lparr>eof = False, reader = plain bs @ X\<rparr> dst =
          read_chunks n' \<lparr>eof = False, reader = plain (drop ?k bs) @ X\<rparr> (dst @ take ?k bs)" ..
    also have "\<dots> = (((dst @ take ?k bs) @ drop ?k bs, if err = EOF then None else Some err), s')"
      using le by (intro less.hyps clean_drop less.prems) simp
    finally show ?thesis by simp
  qed
qed

lemma read_chunks_value:
  assumes "clean bs"
  shows "read_chunks n \<lparr>eof = False, reader = plain bs @ Read1 (CHR 0x22) e # rd\<rparr> buf =
           ((buf @ bs, None), \<lparr>eof = True, reader = rd\<rparr>)"
  using read_chunks_plain[OF assms, where X = "Read1 (CHR 0x22) e # rd" and err = EOF
      and s' = "\<lparr>eof = True, reader = rd\<rparr>" and n = n and dst = buf and ?c0.0 = "CHR 0x22"]
    Read_until_quote[where e = e and rd = rd]
  by simp

lemma read_chunks_escape:
  assumes "clean bs"
  shows "read_chunks n \<lparr>eof = False, reader = plain bs @ Read1 (CHR 0x5C) e # rd\<rparr> buf =
           ((buf @ bs, Some (ContextError UnsupportedEscapedCharacter)), \<lparr>eof = False, reader = rd\<rparr>)"
  using read_chunks_plain[OF assms, where X = "Read1 (CHR 0x5C) e # rd"
      and err = "ContextError UnsupportedEscapedCharacter"
      and s' = "\<lparr>eof = False, reader = rd\<rparr>" and n = n and dst = buf and ?c0.0 = "CHR 0x5C"]
    Read_until_backslash[where e = e and rd = rd]
  by simp

text \<open>
  On a source that delivers the bytes \<open>bs\<close> (none of them a quote or a backslash) each by
  a read with a nil error, and then a quote, the value reader does what is expected of
  it: a \<open>Read\<close> into a buffer longer than \<open>bs\<close> returns \<open>bs\<close> with \<open>io.EOF\<close>, sets \<open>eof\<close>
  and leaves the source after the quote, a \<open>Read\<close> into a shorter buffer fills it with the
  first bytes of \<open>bs\<close>, once \<open>eof\<close> is set every \<open>Read\<close> returns no byte and \<open>io.EOF\<close>, and
  a backslash after \<open>bs\<close> gives \<open>bs\<close> with the error "unsupported escaped character".
\<close>

lemma value_reader_on_plain_bytes:
  assumes "clean bs"
  shows "(length bs < length p \<longrightarrow>
            Read \<lparr>eof = False, reader = plain bs @ Read1 (CHR 0x22) e # rd\<rparr> p =
              ((length bs, Some EOF), (fill p 0 bs)[length bs := CHR 0x22], \<lparr>eof = True, reader = rd\<rparr>)
            \<and> take (length bs) ((fill p 0 bs)[length bs := CHR 0x22]) = bs)
       \<and> (length p \<le> length bs \<longrightarrow>
            Read \<lparr>eof = False, reader = plain bs @ Read1 (CHR 0x22) e # rd\<rparr> p =
              ((length p, None), take (length p) bs,
               \<lparr>eof = False, reader = plain (drop (length p) bs) @ Read1 (CHR 0x22) e # rd\<rparr>))
       \<and> Read \<lparr>eof = True, reader = rd\<rparr> p = ((0, Some EOF), p, \<lparr>eof = True, reader = rd\<rparr>)
       \<and> read_chunks n \<lparr>eof = False, reader = plain bs @ Read1 (CHR 0x22) e # rd\<rparr> [] =
              ((bs, None), \<lparr>eof = True, reader = rd\<rparr>)
       \<and> (length bs < length p \<longrightarrow>
            Read \<lparr>eof = False, reader = plain bs @ Read1 (CHR 0x5C) e # rd\<rparr> p =
              ((length bs, Some (ContextError UnsupportedEscapedCharacter)),
               (fill p 0 bs)[length bs := CHR 0x5C], \<lparr>eof = False, reader = rd\<rparr>))"
  using Read_until_quote[OF assms] Read_fills_buffer[OF assms] Read_until_backslash[OF assms]
    read_chunks_value[OF assms, where buf = "[]"] take_fill
  by (simp add: Read_after_eof)

text \<open>
  C6. The claim speaks of every underlying byte source, and fails on two kinds of read
  that \<open>io.Reader\<close> permits. A byte that arrives together with an error is consumed and
  never returned: the loop breaks before \<open>i++\<close>, so on the source \<open>(a, boom)\<close>, \<open>(b, nil)\<close>,
  \<open>(quote, nil)\<close> the first \<open>Read\<close> into three bytes returns \<open>n = 0\<close> with the error and the
  second returns \<open>b\<close> alone with \<open>io.EOF\<close>. A read that returns \<open>(0, nil)\<close> is counted
  as a byte: on \<open>(0, nil)\<close>, \<open>(a, nil)\<close>, \<open>(quote, nil)\<close> the \<open>Read\<close> returns \<open>n = 2\<close> and the
  caller finds the old content of the buffer in front of \<open>a\<close>. The loop of \<open>Stream\<close>
  treats both reads as \<open>io.Reader\<close> asks.
\<close>

theorem value_reader_loses_and_invents_bytes:
  "Read \<lparr>eof = False,
         reader = [Read1 (CHR ''a'') (Some (LibraryError ''boom'')), Read1 (CHR ''b'') None, Read1 (CHR 0x22) None]\<rparr>
      [CHR 0x00, CHR 0x00, CHR 0x00] =
     ((0, Some (LibraryError ''boom'')), [CHR ''a'', CHR 0x00, CHR 0x00],
      \<lparr>eof = False, reader = [Read1 (CHR ''b'') None, Read1 (CHR 0x22) None]\<rparr>)
   \<and> Read \<lparr>eof = False, reader = [Read1 (CHR ''b'') None, Read1 (CHR 0x22) None]\<rparr>
      [CHR ''a'', CHR 0x00, CHR 0x00] =
     ((1, Some EOF), [CHR ''b'', CHR 0x22, CHR 0x00], \<lparr>eof = True, reader = []\<rparr>)
   \<and> Read \<lparr>eof = False, reader = [Read0 None, Read1 (CHR ''a'') None, Read1 (CHR 0x22) None]\<rparr>
      [CHR 0x00, CHR 0x00, CHR 0x00] =
     ((2, Some EOF), [CHR 0x00, CHR ''a'', CHR 0x22], \<lparr>eof = True, reader = []\<rparr>)"
  by (simp add: Read_def Read_from.simps)

section \<open>The limited JSON streamer\<close>

subsection \<open>One iteration of the loop of Stream, by the result of the read\<close>

lemma Stream_loop_Nil:
  "Stream_loop h st kb hs [] =
     Some (if st \<noteq> stateJSONObjectEnd then Some (ContextError UnexpectedEOFBeforeObjectEnd) else None, hs)"
  by (subst Stream_loop.simps) simp

lemma Stream_loop_Read0_nil:
  "Stream_loop h st kb hs (Read0 None # rd) = Stream_loop h st kb hs rd"
  by (subst Stream_loop.simps) simp

lemma Stream_loop_Read0:
  "Stream_loop h st kb hs (Read0 (Some e) # rd) =
     Some (if e = EOF
           then (if st \<noteq> stateJSONObjectEnd then Some (ContextError UnexpectedEOFBeforeObjectEnd) else None)
           else Some (ContextError e), hs)"
  by (subst Stream_loop.simps) simp

lemma Stream_loop_Read1:
  "Stream_loop h st kb hs (Read1 b None # rd) =
     (case Stream_byte h st kb hs rd b of
        Return r hs' \<Rightarrow> Some (r, hs')
      | Continue st' kb' hs' rd2 \<Rightarrow> Stream_loop h st' kb' hs' rd2)"
  by (subst Stream_loop.simps) (simp split: step.splits)

lemma Stream_loop_Read1_err:
  "Stream_loop h st kb hs (Read1 b (Some e) # rd) =
     (case Stream_byte h st kb hs rd b of
        Return r hs' \<Rightarrow> Some (r, hs')
      | Continue st' kb' hs' rd2 \<Rightarrow>
          Some (if e = EOF
                then (if st' \<noteq> stateJSONObjectEnd then Some (ContextError UnexpectedEOFBeforeObjectEnd) else None)
                else Some (ContextError e), hs'))"
  by (subst Stream_loop.simps) (simp split: step.splits)

subsection \<open>Whitespace is skipped in every state but inside a key\<close>

definition skipping :: "jstate \<Rightarrow> bool" where
  "skipping st = (st \<noteq> stateJSONSeekingKeyEnd \<and> st \<noteq> stateJSONSeekingStringValueEnd)"

lemma Stream_byte_whitespace:
  assumes "isWhitespace b" and "skipping st"
  shows "Stream_byte h st kb hs rd b = Continue st kb hs rd"
proof -
  from assms(1) have "b \<noteq> CHR ''{''" "b \<noteq> CHR 0x22" "b \<noteq> CHR '':''" "b \<noteq> CHR '',''" "b \<noteq> CHR ''}''"
    by (auto simp: isWhitespace_def)
  with assms show ?thesis
    by (cases st) (simp_all add: skipping_def)
qed

lemma Stream_loop_skip_whitespace:
  assumes "\<forall>c\<in>set ws. isWhitespace c" and "skipping st"
  shows "Stream_loop h st kb hs (plain ws @ rd) = Stream_loop h st kb hs rd"
  using assms
proof (induction ws)
  case Nil
  show ?case by (simp add: plain_Nil)
next
  case (Cons c ws)
  then have "isWhitespace c" by simp
  then have "Stream_loop h st kb hs (plain (c # ws) @ rd) = Stream_loop h st kb hs (plain ws @ rd)"
    by (simp add: plain_Cons Stream_loop_Read1 Stream_byte_whitespace[OF _ Cons.prems(2)])
  with Cons show ?case by simp
qed

subsection \<open>The empty object\<close>

text \<open>
  C7 (as amended). The streamer rejects the empty object. After \<open>{\<close> the state is
  \<open>stateJSONSeekingKeyStart\<close>, where only whitespace and the opening quote of a key are
  accepted: for every handler, every whitespace \<open>ws1\<close> and \<open>ws2\<close> and whatever follows,
  the input \<open>ws1 { ws2 }\<close> makes \<open>Stream\<close> fail with "unexpected character '}' while
  seeking key start", the handler's variables untouched. An object needs at least one
  pair.
\<close>

theorem Stream_rejects_empty_object:
  assumes "\<forall>c\<in>set ws1. isWhitespace c" and "\<forall>c\<in>set ws2. isWhitespace c"
  shows "Stream handler hs (plain (ws1 @ ''{'' @ ws2) @ Read1 (CHR ''}'') e # rd) =
           Some (Some (ContextError (UnexpectedCharacter (CHR ''}'') stateJSONSeekingKeyStart)), hs)"
proof -
  have not_ws: "\<not> isWhitespace (CHR ''}'')"
    by (simp add: isWhitespace_def)
  have "Stream handler hs (plain (ws1 @ ''{'' @ ws2) @ Read1 (CHR ''}'') e # rd) =
        Stream_loop handler stateJSONSeekingObjectStart [] hs
          (plain ws1 @ (Read1 (CHR ''{'') None # plain ws2 @ Read1 (CHR ''}'') e # rd))"
    by (simp add: Stream_def plain_append plain_Cons plain_Nil)
  also have "\<dots> = Stream_loop handler stateJSONSeekingObjectStart [] hs
          (Read1 (CHR ''{'') None # plain ws2 @ Read1 (CHR ''}'') e # rd)"
    by (rule Stream_loop_skip_whitespace[OF assms(1)]) (simp add: skipping_def)
  also have "\<dots> = Stream_loop handler stateJSONSeekingKeyStart [] hs (plain ws2 @ Read1 (CHR ''}'') e # rd)"
    by (simp add: Stream_loop_Read1)
  also have "\<dots> = Stream_loop handler stateJSONSeekingKeyStart [] hs (Read1 (CHR ''}'') e # rd)"
    by (rule Stream_loop_skip_whitespace[OF assms(2)]) (simp add: skipping_def)
  also have "\<dots> = Some (Some (ContextError (UnexpectedCharacter (CHR ''}'') stateJSONSeekingKeyStart)), hs)"
    using not_ws by (cases e) (simp_all add: Stream_loop_Read1 Stream_loop_Read1_err)
  finally show ?thesis .
qed

theorem Stream_rejects_empty_object_witness:
  "isWhitespace (CHR '' '') \<and> isWhitespace (CHR 0x0A) \<and>
   Stream (jsonHandler (toy_library []) 0) initialVars (plain ('' '' @ ''{'' @ [CHR 0x0A]) @ Read1 (CHR ''}'') (Some EOF) # []) =
     Some (Some (ContextError (UnexpectedCharacter (CHR ''}'') stateJSONSeekingKeyStart)), initialVars)"
proof -
  have a: "\<forall>c\<in>set '' ''. isWhitespace c" by (simp add: isWhitespace_def)
  have b: "\<forall>c\<in>set [CHR 0x0A]. isWhitespace c" by (simp add: isWhitespace_def)
  show ?thesis
    using a b Stream_rejects_empty_object[OF a b, where handler = "jsonHandler (toy_library []) 0"
        and hs = initialVars and e = "Some EOF" and rd = "[]"]
    by simp
qed

text \<open>
  The claim as the spec's grammar states it, with an optional pair list, fails on the
  two bytes \<open>{}\<close>.
\<close>

theorem Stream_empty_object_counterexample:
  "Stream (jsonHandler (toy_library []) 0) initialVars (plain ''{}'') =
     Some (Some (ContextError (UnexpectedCharacter (CHR ''}'') stateJSONSeekingKeyStart)), initialVars)"
  by (simp add: Stream_def plain_Cons plain_Nil Stream_loop_Read1 isWhitespace_def)

section \<open>The streamer under the handler of the verifier, token by token\<close>


text \<open>
  The decompressed envelope as \<open>Stream\<close> reads it: a sequence of tokens, each a string
  in quotes (\<open>Str\<close>, its content free of quotes) or a single other byte that is not
  whitespace (\<open>Sym\<close>), with whitespace between them. \<open>token_step\<close> says what one token
  does to the state of the loop, for the handler of the streaming verifier: the loop
  returns (\<open>TReturn\<close>), the handler halts it at the payload (\<open>THalt\<close>), or it goes on.
\<close>

datatype token = Sym char | Str string

fun spell :: "token \<Rightarrow> string" where
  "spell (Sym c) = [c]"
| "spell (Str s) = CHR 0x22 # s @ [CHR 0x22]"

fun wf_token :: "token \<Rightarrow> bool" where
  "wf_token (Sym c) = (\<not> isWhitespace c \<and> c \<noteq> CHR 0x22)"
| "wf_token (Str s) = (CHR 0x22 \<notin> set s)"

datatype tstep = TReturn "error option" passVars | THalt passVars string | TContinue jstate string passVars

definition escaped :: "string \<Rightarrow> bool" where
  "escaped s = (CHR 0x5C \<in> set s)"

definition before_escape :: "string \<Rightarrow> string" where
  "before_escape s = takeWhile (\<lambda>c. c \<noteq> CHR 0x5C) s"

definition after_escape :: "string \<Rightarrow> string" where
  "after_escape s = tl (dropWhile (\<lambda>c. c \<noteq> CHR 0x5C) s)"

definition base64_effect ::
  "('pub, 'priv) library \<Rightarrow> string \<Rightarrow> error + string" where
  "base64_effect L s =
     (if escaped s then Inl (ContextError (ContextError UnsupportedEscapedCharacter))
      else (case base64_DecodeString L s of Inl err \<Rightarrow> Inl (ContextError err) | Inr d \<Rightarrow> Inr d))"

definition value_effect ::
  "('pub, 'priv) library \<Rightarrow> nat \<Rightarrow> passVars \<Rightarrow> string \<Rightarrow> string \<Rightarrow> tstep" where
  "value_effect L pass vars key s =
     (if key = ''data'' then
        (if pass = 0 then
           (if escaped s
            then TReturn (Some (ContextError (ContextError (ContextError UnsupportedEscapedCharacter))))
                   (vars\<lparr>hash := hash vars @ before_escape s\<rparr>)
            else TContinue stateJSONSeekingNextPair key (vars\<lparr>hash := hash vars @ s\<rparr>))
         else THalt vars s)
      else if key = ''signingPublicKeyDigest'' then
        (case base64_effect L s of
           Inl err \<Rightarrow> TReturn (Some (ContextError (ContextError err))) (vars\<lparr>jsonSigningPublicKey := None\<rparr>)
         | Inr d \<Rightarrow> TContinue stateJSONSeekingNextPair key (vars\<lparr>jsonSigningPublicKey := Some d\<rparr>))
      else if key = ''signature'' then
        (case base64_effect L s of
           Inl err \<Rightarrow> TReturn (Some (ContextError (ContextError err))) (vars\<lparr>jsonSignature := None\<rparr>)
         | Inr d \<Rightarrow> TContinue stateJSONSeekingNextPair key (vars\<lparr>jsonSignature := Some d\<rparr>))
      else TReturn (Some (ContextError (ContextError (UnexpectedKey key)))) vars)"

fun token_step ::
  "('pub, 'priv) library \<Rightarrow> nat \<Rightarrow> jstate \<Rightarrow> string \<Rightarrow> passVars \<Rightarrow> token \<Rightarrow> tstep" where
  "token_step L pass st kb vars (Sym c) =
     (case Stream_byte (jsonHandler L pass) st kb vars [] c of
        Return r vars' \<Rightarrow> TReturn r vars'
      | Continue st' kb' vars' rd \<Rightarrow> TContinue st' kb' vars')"
| "token_step L pass st kb vars (Str s) =
     (if st = stateJSONSeekingKeyStart then
        (if escaped s then TReturn (Some (ContextError UnsupportedEscapedCharacter)) vars
         else TContinue stateJSONSeekingColon s vars)
      else if st = stateJSONSeekingStringValueStart then value_effect L pass vars kb s
      else TReturn (Some (ContextError (UnexpectedCharacter (CHR 0x22) st))) vars)"

lemma split_at_escape:
  assumes "escaped s"
  shows "s = before_escape s @ CHR 0x5C # after_escape s"
proof -
  let ?d = "dropWhile (\<lambda>c. c \<noteq> CHR 0x5C) s"
  from assms have ne: "?d \<noteq> []"
    by (auto simp: escaped_def)
  then obtain x xs where d: "?d = x # xs"
    by (cases ?d) auto
  from hd_dropWhile[OF ne] d have "x = CHR 0x5C" by simp
  with d have "?d = CHR 0x5C # after_escape s"
    by (simp add: after_escape_def)
  moreover have "s = before_escape s @ ?d"
    by (simp add: before_escape_def)
  ultimately show ?thesis by simp
qed

lemma clean_before_escape: "CHR 0x22 \<notin> set s \<Longrightarrow> clean (before_escape s)"
  by (auto simp: clean_def before_escape_def dest: set_takeWhileD)

lemma clean_iff: "clean s \<longleftrightarrow> CHR 0x22 \<notin> set s \<and> \<not> escaped s"
  by (auto simp: clean_def escaped_def)

text \<open>
  What \<open>io.Copy\<close> and \<open>ioutil.ReadAll\<close> make of a string value followed by its closing
  quote: the whole value, or the bytes before the first backslash and the error.
\<close>

definition after_value :: "string \<Rightarrow> reader \<Rightarrow> limitedJSONValueStreamer" where
  "after_value s rest =
     (if escaped s
      then \<lparr>eof = False, reader = plain (after_escape s) @ Read1 (CHR 0x22) None # rest\<rparr>
      else \<lparr>eof = True, reader = rest\<rparr>)"

lemma read_chunks_string:
  assumes "CHR 0x22 \<notin> set s"
  shows "read_chunks n \<lparr>eof = False, reader = plain s @ Read1 (CHR 0x22) None # rest\<rparr> buf =
           ((buf @ before_escape s,
             if escaped s then Some (ContextError UnsupportedEscapedCharacter) else None),
            after_value s rest)"
proof (cases "escaped s")
  case False
  with assms have c: "clean s" by (simp add: clean_iff)
  from False have "before_escape s = s"
    by (auto simp: before_escape_def escaped_def)
  with read_chunks_value[OF c] False show ?thesis
    by (simp add: after_value_def)
next
  case True
  have "plain s @ Read1 (CHR 0x22) None # rest =
        plain (before_escape s) @ Read1 (CHR 0x5C) None # (plain (after_escape s) @ Read1 (CHR 0x22) None # rest)"
    by (subst split_at_escape[OF True]) (simp add: plain_append plain_Cons)
  with read_chunks_escape[OF clean_before_escape[OF assms]] True show ?thesis
    by (simp add: after_value_def)
qed

lemma not_escaped_before: "\<not> escaped s \<Longrightarrow> before_escape s = s"
  by (auto simp: before_escape_def escaped_def)

lemma jsonReadBase64Value_string:
  assumes "CHR 0x22 \<notin> set s"
  shows "jsonReadBase64Value L \<lparr>eof = False, reader = plain s @ Read1 (CHR 0x22) None # rest\<rparr> =
           (base64_effect L s, after_value s rest)"
proof (cases "escaped s")
  case True
  then show ?thesis
    by (simp add: jsonReadBase64Value_def ioutil_ReadAll_def read_chunks_string[OF assms] base64_effect_def)
next
  case False
  then show ?thesis
    by (simp add: jsonReadBase64Value_def ioutil_ReadAll_def read_chunks_string[OF assms]
        base64_effect_def not_escaped_before split: sum.splits)
qed

lemma Stream_byte_value:
  assumes "CHR 0x22 \<notin> set s"
  shows "Stream_byte (jsonHandler L pass) stateJSONSeekingStringValueStart key vars
           (plain s @ Read1 (CHR 0x22) None # rest) (CHR 0x22) =
         (case value_effect L pass vars key s of
            TReturn r vars' \<Rightarrow> Return r vars'
          | THalt vars' v \<Rightarrow>
              Return None (vars'\<lparr>jsonData := Some \<lparr>eof = False, reader = plain v @ Read1 (CHR 0x22) None # rest\<rparr>\<rparr>)
          | TContinue st' kb' vars' \<Rightarrow> Continue st' kb' vars' rest)"
proof -
  consider (data0) "key = ''data''" "pass = 0" | (data1) "key = ''data''" "pass \<noteq> 0"
    | (digest) "key = ''signingPublicKeyDigest''" | (sig) "key = ''signature''"
    | (other) "key \<noteq> ''data''" "key \<noteq> ''signingPublicKeyDigest''" "key \<noteq> ''signature''"
    by blast
  then show ?thesis
  proof cases
    case data0
    show ?thesis
    proof (cases "escaped s")
      case True
      with data0 show ?thesis
        by (simp add: jsonHandler_def value_effect_def io_Copy_def read_chunks_string[OF assms])
    next
      case False
      with data0 show ?thesis
        by (simp add: jsonHandler_def value_effect_def io_Copy_def read_chunks_string[OF assms]
            not_escaped_before after_value_def)
    qed
  next
    case data1
    then show ?thesis
      by (simp add: jsonHandler_def value_effect_def)
  next
    case digest
    show ?thesis
    proof (cases "base64_effect L s")
      case (Inl err)
      with digest show ?thesis
        by (simp add: jsonHandler_def value_effect_def jsonReadBase64Value_string[OF assms])
    next
      case (Inr d)
      then have "\<not> escaped s" by (auto simp: base64_effect_def split: if_splits)
      with Inr digest show ?thesis
        by (simp add: jsonHandler_def value_effect_def jsonReadBase64Value_string[OF assms] after_value_def)
    qed
  next
    case sig
    show ?thesis
    proof (cases "base64_effect L s")
      case (Inl err)
      with sig show ?thesis
        by (simp add: jsonHandler_def value_effect_def jsonReadBase64Value_string[OF assms])
    next
      case (Inr d)
      then have "\<not> escaped s" by (auto simp: base64_effect_def split: if_splits)
      with Inr sig show ?thesis
        by (simp add: jsonHandler_def value_effect_def jsonReadBase64Value_string[OF assms] after_value_def)
    qed
  next
    case other
    then show ?thesis
      by (simp add: jsonHandler_def value_effect_def)
  qed
qed

lemma Stream_loop_key:
  assumes "CHR 0x22 \<notin> set s"
  shows "Stream_loop h stateJSONSeekingKeyEnd kb hs (plain s @ Read1 (CHR 0x22) None # rest) =
           (if escaped s then Some (Some (ContextError UnsupportedEscapedCharacter), hs)
            else Stream_loop h stateJSONSeekingColon (kb @ s) hs rest)"
  using assms
proof (induction s arbitrary: kb)
  case Nil
  show ?case by (simp add: plain_Nil Stream_loop_Read1 escaped_def)
next
  case (Cons c s)
  then have c: "c \<noteq> CHR 0x22" and s: "CHR 0x22 \<notin> set s" by auto
  show ?case
  proof (cases "c = CHR 0x5C")
    case True
    then show ?thesis by (simp add: plain_Cons Stream_loop_Read1 escaped_def)
  next
    case False
    with c have "Stream_loop h stateJSONSeekingKeyEnd kb hs (plain (c # s) @ Read1 (CHR 0x22) None # rest) =
      Stream_loop h stateJSONSeekingKeyEnd (kb @ [c]) hs (plain s @ Read1 (CHR 0x22) None # rest)"
      by (simp add: plain_Cons Stream_loop_Read1)
    also note Cons.IH[OF s, of "kb @ [c]"]
    finally show ?thesis using False by (simp add: escaped_def)
  qed
qed

lemma Stream_byte_sym:
  assumes "c \<noteq> CHR 0x22" and "skipping st"
  shows "Stream_byte h st kb hs rd c =
           (case Stream_byte h st kb hs [] c of
              Return r hs' \<Rightarrow> Return r hs'
            | Continue st' kb' hs' rd' \<Rightarrow> Continue st' kb' hs' rd)"
  using assms by (cases st) (simp_all add: skipping_def)

lemma Stream_byte_quote:
  assumes "skipping st" and "st \<noteq> stateJSONSeekingKeyStart" and "st \<noteq> stateJSONSeekingStringValueStart"
  shows "Stream_byte h st kb hs rd (CHR 0x22) =
           Return (Some (ContextError (UnexpectedCharacter (CHR 0x22) st))) hs"
  using assms by (cases st) (simp_all add: skipping_def isWhitespace_def)

text \<open>
  One token, read by \<open>Stream\<close> with the handler of the streaming verifier, from a state
  between tokens.
\<close>

lemma Stream_loop_token:
  assumes "wf_token t" and "skipping st"
  shows "Stream_loop (jsonHandler L pass) st kb vars (plain (spell t) @ rest) =
           (case token_step L pass st kb vars t of
              TReturn r vars' \<Rightarrow> Some (r, vars')
            | THalt vars' v \<Rightarrow>
                Some (None, vars'\<lparr>jsonData := Some \<lparr>eof = False, reader = plain v @ Read1 (CHR 0x22) None # rest\<rparr>\<rparr>)
            | TContinue st' kb' vars' \<Rightarrow> Stream_loop (jsonHandler L pass) st' kb' vars' rest)"
proof (cases t)
  case (Sym c)
  with assms have c: "c \<noteq> CHR 0x22" by simp
  show ?thesis
    unfolding Sym
    by (simp add: plain_Cons plain_Nil Stream_loop_Read1 Stream_byte_sym[OF c assms(2), of _ _ _ rest]
        split: step.splits)
next
  case (Str s)
  with assms have s: "CHR 0x22 \<notin> set s" by simp
  have sp: "plain (spell (Str s)) @ rest = Read1 (CHR 0x22) None # (plain s @ Read1 (CHR 0x22) None # rest)"
    by (simp add: plain_Cons plain_append plain_Nil)
  consider (key) "st = stateJSONSeekingKeyStart" | (val) "st = stateJSONSeekingStringValueStart"
    | (other) "st \<noteq> stateJSONSeekingKeyStart" "st \<noteq> stateJSONSeekingStringValueStart"
    by blast
  then show ?thesis
  proof cases
    case key
    show ?thesis
      unfolding Str sp key
      by (simp add: Stream_loop_Read1 Stream_loop_key[OF s])
  next
    case val
    show ?thesis
      unfolding Str sp val
      by (simp add: Stream_loop_Read1 Stream_byte_value[OF s] del: Stream_byte.simps split: tstep.splits)
  next
    case other
    show ?thesis
      unfolding Str sp
      using other by (simp add: Stream_loop_Read1 Stream_byte_quote[OF assms(2) other])
  qed
qed

lemma token_step_skipping:
  assumes "token_step L pass st kb vars t = TContinue st' kb' vars'" and "skipping st" and "wf_token t"
  shows "skipping st'"
proof (cases t)
  case (Sym c)
  with assms show ?thesis
    by (cases st) (auto simp: skipping_def split: if_splits)
next
  case (Str s)
  with assms show ?thesis
    by (auto simp: skipping_def value_effect_def split: if_splits sum.splits)
qed

section \<open>Whitespace between tokens\<close>


text \<open>The text of a sequence of tokens, each with the whitespace before it.\<close>

fun render :: "(string \<times> token) list \<Rightarrow> string" where
  "render [] = []"
| "render ((ws, t) # wts) = ws @ spell t @ render wts"

definition wf_tokens :: "(string \<times> token) list \<Rightarrow> bool" where
  "wf_tokens wts = (\<forall>(ws, t)\<in>set wts. (\<forall>c\<in>set ws. isWhitespace c) \<and> wf_token t)"

fun run_tokens ::
  "('pub, 'priv) library \<Rightarrow> nat \<Rightarrow> jstate \<Rightarrow> string \<Rightarrow> passVars \<Rightarrow> (string \<times> token) list \<Rightarrow> reader \<Rightarrow>
     (error option \<times> passVars) option" where
  "run_tokens L pass st kb vars [] rest = Stream_loop (jsonHandler L pass) st kb vars rest"
| "run_tokens L pass st kb vars ((ws, t) # wts) rest =
     (case token_step L pass st kb vars t of
        TReturn r vars' \<Rightarrow> Some (r, vars')
      | THalt vars' v \<Rightarrow>
          Some (None, vars'\<lparr>jsonData :=
                  Some \<lparr>eof = False, reader = plain v @ Read1 (CHR 0x22) None # (plain (render wts) @ rest)\<rparr>\<rparr>)
      | TContinue st' kb' vars' \<Rightarrow> run_tokens L pass st' kb' vars' wts rest)"

lemma wf_tokens_Cons:
  "wf_tokens ((ws, t) # wts) \<longleftrightarrow> (\<forall>c\<in>set ws. isWhitespace c) \<and> wf_token t \<and> wf_tokens wts"
  by (auto simp: wf_tokens_def)

lemma Stream_loop_tokens:
  assumes "wf_tokens wts" and "skipping st"
  shows "Stream_loop (jsonHandler L pass) st kb vars (plain (render wts) @ rest) =
           run_tokens L pass st kb vars wts rest"
  using assms
proof (induction wts arbitrary: st kb vars)
  case Nil
  show ?case by (simp add: plain_Nil)
next
  case (Cons wt wts)
  obtain ws t where wt: "wt = (ws, t)" by (cases wt)
  from Cons.prems wt have ws: "\<forall>c\<in>set ws. isWhitespace c" and t: "wf_token t" and wts: "wf_tokens wts"
    by (simp_all add: wf_tokens_Cons)
  have "Stream_loop (jsonHandler L pass) st kb vars (plain (render (wt # wts)) @ rest) =
        Stream_loop (jsonHandler L pass) st kb vars (plain ws @ (plain (spell t) @ (plain (render wts) @ rest)))"
    by (simp add: wt plain_append)
  also have "\<dots> = Stream_loop (jsonHandler L pass) st kb vars (plain (spell t) @ (plain (render wts) @ rest))"
    by (rule Stream_loop_skip_whitespace[OF ws Cons.prems(2)])
  also have "\<dots> = run_tokens L pass st kb vars (wt # wts) rest"
  proof (cases "token_step L pass st kb vars t")
    case (TContinue st' kb' vars')
    from token_step_skipping[OF this Cons.prems(2) t] have "skipping st'" .
    from Cons.IH[OF wts this] TContinue show ?thesis
      by (simp add: wt Stream_loop_token[OF t Cons.prems(2)])
  qed (simp_all add: wt Stream_loop_token[OF t Cons.prems(2)])
  finally show ?case .
qed

text \<open>
  What the caller observes: the content of a payload reader is what reading it to the end
  gives, bytes and error; the verdict of the verifier is its error or that content.
\<close>

definition payload_content :: "bool \<times> char \<times> string \<Rightarrow> limitedJSONValueStreamer \<Rightarrow> string \<times> error option" where
  "payload_content n v = fst (read_chunks n v [])"

definition observe ::
  "bool \<times> char \<times> string \<Rightarrow> (error option \<times> passVars) option \<Rightarrow>
     (error option \<times> string \<times> string option \<times> string option \<times> (string \<times> error option) option) option" where
  "observe n x =
     map_option (\<lambda>(r, vars). (r, hash vars, jsonSigningPublicKey vars, jsonSignature vars,
                               map_option (payload_content n) (jsonData vars))) x"

definition verdict ::
  "bool \<times> char \<times> string \<Rightarrow> (error + limitedJSONValueStreamer option) option \<Rightarrow> (error + (string \<times> error option) option) option" where
  "verdict n x = map_option (map_sum id (map_option (payload_content n))) x"

definition unspaced :: "(string \<times> token) list \<Rightarrow> (string \<times> token) list" where
  "unspaced wts = map (\<lambda>(ws, t). ([], t)) wts"

lemma payload_content_string:
  assumes "CHR 0x22 \<notin> set s"
  shows "payload_content n \<lparr>eof = False, reader = plain s @ Read1 (CHR 0x22) None # rest\<rparr> =
           (before_escape s, if escaped s then Some (ContextError UnsupportedEscapedCharacter) else None)"
  by (simp add: payload_content_def read_chunks_string[OF assms])

lemma token_step_halt:
  assumes "token_step L pass st kb vars t = THalt vars' v" and "wf_token t"
  shows "CHR 0x22 \<notin> set v"
proof (cases t)
  case (Sym c)
  with assms show ?thesis by (simp split: step.splits)
next
  case (Str s)
  with assms show ?thesis
    by (auto simp: value_effect_def split: if_splits sum.splits)
qed

lemma run_tokens_whitespace:
  assumes "wf_tokens wts" and "skipping st" and "\<forall>c\<in>set trailing. isWhitespace c"
  shows "observe n (run_tokens L pass st kb vars wts (plain trailing @ rest)) =
         observe n (run_tokens L pass st kb vars (unspaced wts) rest)"
  using assms(1,2)
proof (induction wts arbitrary: st kb vars)
  case Nil
  show ?case
    by (simp add: unspaced_def Stream_loop_skip_whitespace[OF assms(3) Nil.prems(2)])
next
  case (Cons wt wts)
  obtain ws t where wt: "wt = (ws, t)" by (cases wt)
  from Cons.prems wt have t: "wf_token t" and wts: "wf_tokens wts"
    by (simp_all add: wf_tokens_Cons)
  show ?case
  proof (cases "token_step L pass st kb vars t")
    case (TReturn r vars')
    then show ?thesis by (simp add: wt unspaced_def)
  next
    case (THalt vars' v)
    from token_step_halt[OF this t] have "CHR 0x22 \<notin> set v" .
    with THalt show ?thesis
      by (simp add: wt unspaced_def observe_def payload_content_string)
  next
    case (TContinue st' kb' vars')
    from token_step_skipping[OF this Cons.prems(2) t] have "skipping st'" .
    from Cons.IH[OF wts this] TContinue show ?thesis
      by (simp add: wt unspaced_def)
  qed
qed

lemma wf_tokens_unspaced: "wf_tokens wts \<Longrightarrow> wf_tokens (unspaced wts)"
  by (auto simp: wf_tokens_def unspaced_def)

lemma Stream_whitespace:
  assumes "wf_tokens wts" and "\<forall>c\<in>set trailing. isWhitespace c"
  shows "observe n (Stream (jsonHandler L pass) vars (plain (render wts @ trailing) @ rest)) =
         observe n (Stream (jsonHandler L pass) vars (plain (render (unspaced wts)) @ rest))"
proof -
  have sk: "skipping stateJSONSeekingObjectStart" by (simp add: skipping_def)
  have "Stream (jsonHandler L pass) vars (plain (render wts @ trailing) @ rest) =
        run_tokens L pass stateJSONSeekingObjectStart [] vars wts (plain trailing @ rest)"
    using Stream_loop_tokens[OF assms(1) sk, of L pass "[]" vars "plain trailing @ rest"]
    by (simp add: Stream_def plain_append)
  moreover have "Stream (jsonHandler L pass) vars (plain (render (unspaced wts)) @ rest) =
        run_tokens L pass stateJSONSeekingObjectStart [] vars (unspaced wts) rest"
    using Stream_loop_tokens[OF wf_tokens_unspaced[OF assms(1)] sk, of L pass "[]" vars rest]
    by (simp add: Stream_def)
  ultimately show ?thesis
    using run_tokens_whitespace[OF assms(1) sk assms(2)] by simp
qed

lemma passBody_verdict:
  assumes "file_Seek L file1 = file_Seek L file2"
    and "zlib_NewReader L file1 = Inr rd1" and "zlib_NewReader L file2 = Inr rd2"
    and "observe n (Stream (jsonHandler L pass) initialVars rd1) =
         observe n (Stream (jsonHandler L pass) initialVars rd2)"
  shows "verdict n (passBody L file1 key pass payload) = verdict n (passBody L file2 key pass payload)"
proof (cases "file_Seek L file2")
  case (Some err)
  with assms(1) show ?thesis by (simp add: passBody_def)
next
  case None
  note seek = None
  show ?thesis
  proof (cases "Stream (jsonHandler L pass) initialVars rd1")
    case None
    with assms(4) have "Stream (jsonHandler L pass) initialVars rd2 = None"
      by (simp add: observe_def)
    with None seek assms(1,2,3) show ?thesis by (simp add: passBody_def)
  next
    case (Some x)
    obtain r1 vars1 where x: "x = (r1, vars1)" by (cases x)
    from Some assms(4) obtain r2 vars2 where
      s2: "Stream (jsonHandler L pass) initialVars rd2 = Some (r2, vars2)"
      by (cases "Stream (jsonHandler L pass) initialVars rd2") (auto simp: observe_def)
    from Some x s2 assms(4) have eq: "r1 = r2" "hash vars1 = hash vars2"
      "jsonSigningPublicKey vars1 = jsonSigningPublicKey vars2"
      "jsonSignature vars1 = jsonSignature vars2"
      "map_option (payload_content n) (jsonData vars1) = map_option (payload_content n) (jsonData vars2)"
      by (simp_all add: observe_def)
    have v: "verifyPass0 L key vars1 = verifyPass0 L key vars2"
      unfolding verifyPass0_def eq(2) eq(3) eq(4) by (rule refl)
    show ?thesis
    proof (cases r2)
      case (Some err)
      with seek assms(1,2,3) \<open>Stream (jsonHandler L pass) initialVars rd1 = Some x\<close> x s2 eq(1)
      show ?thesis by (simp add: passBody_def verdict_def)
    next
      case None
      show ?thesis
      proof (cases "pass = 0")
        case True
        with None seek assms(1,2,3) \<open>Stream (jsonHandler L pass) initialVars rd1 = Some x\<close> x s2 eq(1) v
        show ?thesis by (simp add: passBody_def verdict_def)
      next
        case False
        with None seek assms(1,2,3) \<open>Stream (jsonHandler L pass) initialVars rd1 = Some x\<close> x s2 eq(1,5)
        show ?thesis
          by (cases "jsonData vars1"; cases "jsonData vars2") (simp_all add: passBody_def verdict_def)
      qed
    qed
  qed
qed

declare passLoop.simps [simp del]

lemma passLoop_unfold:
  "passLoop L file key 0 payload =
     (case passBody L file key 0 payload of
        None \<Rightarrow> None
      | Some (Inl err) \<Rightarrow> Some (Inl err)
      | Some (Inr payload') \<Rightarrow>
          (case passBody L file key 1 payload' of
             None \<Rightarrow> None
           | Some (Inl err) \<Rightarrow> Some (Inl err)
           | Some (Inr payload'') \<Rightarrow> Some (Inr payload'')))"
proof -
  have two: "passLoop L file key 2 p = Some (Inr p)" for p
    by (subst passLoop.simps) simp
  have one: "passLoop L file key (Suc 0) p =
      (case passBody L file key 1 p of None \<Rightarrow> None | Some (Inl err) \<Rightarrow> Some (Inl err)
       | Some (Inr p') \<Rightarrow> Some (Inr p'))" for p
    by (subst passLoop.simps) (simp add: two numeral_2_eq_2[symmetric] split: option.splits sum.splits)
  show ?thesis
    by (subst passLoop.simps) (simp add: one split: option.splits sum.splits)
qed

lemma passBody0_payload:
  "passBody L file key 0 payload = Some (Inr p) \<Longrightarrow> p = payload"
  by (auto simp: passBody_def split: option.splits sum.splits prod.splits)

lemma unspaced_cong: "map snd wts1 = map snd wts2 \<Longrightarrow> unspaced wts1 = unspaced wts2"
proof (induction wts1 arbitrary: wts2)
  case Nil
  then show ?case by (simp add: unspaced_def)
next
  case (Cons a wts1)
  then obtain b wts2' where "wts2 = b # wts2'" by (cases wts2) auto
  with Cons show ?case by (cases a; cases b) (auto simp: unspaced_def)
qed

lemma passLoop_verdict:
  assumes v0: "verdict n (passBody L file1 key 0 None) = verdict n (passBody L file2 key 0 None)"
    and v1: "verdict n (passBody L file1 key 1 None) = verdict n (passBody L file2 key 1 None)"
  shows "verdict n (passLoop L file1 key 0 None) = verdict n (passLoop L file2 key 0 None)"
proof (cases "passBody L file1 key 0 None")
  case None
  with v0 have "passBody L file2 key 0 None = None" by (simp add: verdict_def)
  with None show ?thesis by (simp add: passLoop_unfold)
next
  case (Some x)
  then obtain y where y: "passBody L file2 key 0 None = Some y"
    using v0 by (cases "passBody L file2 key 0 None") (auto simp: verdict_def)
  show ?thesis
  proof (cases x)
    case (Inl err)
    with Some y v0 have "y = Inl err" by (cases y) (auto simp: verdict_def)
    with Some Inl y show ?thesis by (simp add: passLoop_unfold)
  next
    case (Inr p)
    with Some have p: "p = None" by (auto dest: passBody0_payload)
    from Some Inr y v0 obtain q where q: "y = Inr q" by (cases y) (auto simp: verdict_def)
    with y have "q = None" by (auto dest: passBody0_payload)
    have "verdict n (passLoop L file1 key 0 None) = verdict n (passBody L file1 key 1 None)"
      using Some Inr p by (simp add: passLoop_unfold verdict_def split: option.splits sum.splits)
    moreover have "verdict n (passLoop L file2 key 0 None) = verdict n (passBody L file2 key 1 None)"
      using y q \<open>q = None\<close> by (simp add: passLoop_unfold verdict_def split: option.splits sum.splits)
    ultimately show ?thesis using v1 by simp
  qed
qed

text \<open>
  C8. Two package files whose decompressed envelopes are the same tokens with different
  whitespace before each token and after the last one (whitespace being space, tab, CR
  and LF), followed by the same end of the stream, get the same verdict from the
  streaming verifier: the same error, or a payload reader with the same content. The
  envelope need not be well formed: the tokens are any strings in quotes and any other
  bytes.
\<close>

theorem streaming_verdict_whitespace_invariant:
  assumes "wf_tokens wts1" and "wf_tokens wts2" and "map snd wts1 = map snd wts2"
    and "\<forall>c\<in>set trailing1. isWhitespace c" and "\<forall>c\<in>set trailing2. isWhitespace c"
    and "os_Open L name1 = Inr file1" and "os_Open L name2 = Inr file2"
    and "file_Seek L file1 = file_Seek L file2"
    and "zlib_NewReader L file1 = Inr (plain (render wts1 @ trailing1) @ rest)"
    and "zlib_NewReader L file2 = Inr (plain (render wts2 @ trailing2) @ rest)"
  shows "verdict n (StreamingReadAuthenticatedDataPackage L name1 key) =
         verdict n (StreamingReadAuthenticatedDataPackage L name2 key)"
proof -
  have obs: "observe n (Stream (jsonHandler L pass) initialVars (plain (render wts1 @ trailing1) @ rest)) =
             observe n (Stream (jsonHandler L pass) initialVars (plain (render wts2 @ trailing2) @ rest))" for pass
    using Stream_whitespace[OF assms(1) assms(4), of n L pass initialVars rest]
      Stream_whitespace[OF assms(2) assms(5), of n L pass initialVars rest]
      unspaced_cong[OF assms(3)]
    by simp
  have "verdict n (passLoop L file1 key 0 None) = verdict n (passLoop L file2 key 0 None)"
    by (intro passLoop_verdict passBody_verdict[OF assms(8) assms(9) assms(10)] obs)
  with assms(6,7) show ?thesis
    by (simp add: StreamingReadAuthenticatedDataPackage_def)
qed

section \<open>Well-formed envelopes\<close>


text \<open>
  A well-formed envelope: after optional whitespace an opening brace, members separated
  by commas, a closing brace and optional whitespace. A member is a key and a value with
  the whitespace before its opening byte (the brace for the first member, a comma for
  the others), before the key, before the colon and before the value.
\<close>

record member =
  ws_open :: string
  ws_key :: string
  key :: string
  ws_colon :: string
  ws_val :: string
  val :: string

fun members_wts :: "char \<Rightarrow> member list \<Rightarrow> (string \<times> token) list" where
  "members_wts c [] = []"
| "members_wts c (m # ms) =
     (ws_open m, Sym c) # (ws_key m, Str (key m)) # (ws_colon m, Sym (CHR '':'')) # (ws_val m, Str (val m))
       # members_wts (CHR '','') ms"

text \<open>
  How the decompressor delivers a text: every byte by a read without error and then
  \<open>io.EOF\<close> on the next read, or, when \<open>merged\<close>, the last byte together with \<open>io.EOF\<close>
  (as Go's inflater does).
\<close>

definition delivered :: "bool \<Rightarrow> string \<Rightarrow> reader" where
  "delivered merged doc =
     (if merged \<and> doc \<noteq> [] then plain (butlast doc) @ [Read1 (last doc) (Some EOF)] else plain doc)"

definition envelope_text :: "member list \<Rightarrow> string \<Rightarrow> string \<Rightarrow> string" where
  "envelope_text ms ws_end trailing = render (members_wts (CHR ''{'') ms) @ ws_end @ ''}'' @ trailing"

definition envelope_reader :: "bool \<Rightarrow> member list \<Rightarrow> string \<Rightarrow> string \<Rightarrow> reader" where
  "envelope_reader merged ms ws_end trailing = delivered merged (envelope_text ms ws_end trailing)"

definition whitespace :: "string \<Rightarrow> bool" where
  "whitespace ws = (\<forall>c\<in>set ws. isWhitespace c)"

definition decoded :: "('pub, 'priv) library \<Rightarrow> string \<Rightarrow> string" where
  "decoded L s = (case base64_DecodeString L s of Inl err \<Rightarrow> [] | Inr d \<Rightarrow> d)"

definition valid_member :: "('pub, 'priv) library \<Rightarrow> member \<Rightarrow> bool" where
  "valid_member L m =
     (whitespace (ws_open m) \<and> whitespace (ws_key m) \<and> whitespace (ws_colon m) \<and> whitespace (ws_val m)
      \<and> clean (val m)
      \<and> (key m = ''data''
          \<or> (key m = ''signingPublicKeyDigest'' \<or> key m = ''signature'')
             \<and> base64_DecodeString L (val m) = Inr (decoded L (val m))))"

text \<open>What the handler of pass 0 does with a valid member.\<close>

definition absorb :: "('pub, 'priv) library \<Rightarrow> passVars \<Rightarrow> member \<Rightarrow> passVars" where
  "absorb L vars m =
     (if key m = ''data'' then vars\<lparr>hash := hash vars @ val m\<rparr>
      else if key m = ''signingPublicKeyDigest'' then vars\<lparr>jsonSigningPublicKey := Some (decoded L (val m))\<rparr>
      else vars\<lparr>jsonSignature := Some (decoded L (val m))\<rparr>)"

lemma delivered_append:
  "ys \<noteq> [] \<Longrightarrow> delivered merged (xs @ ys) = plain xs @ delivered merged ys"
  by (simp add: delivered_def butlast_append plain_append)

lemma reader_ReadAll_plain: "reader_ReadAll (plain xs @ rd) buf = reader_ReadAll rd (buf @ xs)"
  by (induction xs arbitrary: buf) (simp_all add: plain_Nil plain_Cons)

lemma reader_ReadAll_delivered: "reader_ReadAll (delivered merged doc) [] = Inr doc"
proof (cases "merged \<and> doc \<noteq> []")
  case True
  then show ?thesis
    by (simp add: delivered_def reader_ReadAll_plain)
next
  case False
  then have "delivered merged doc = plain doc @ []" by (auto simp: delivered_def)
  then show ?thesis
    by (simp only: reader_ReadAll_plain) simp
qed

lemma Stream_loop_skip_whitespace_end:
  assumes "\<forall>c\<in>set ws. isWhitespace c" and "skipping st"
  shows "Stream_loop h st kb hs (plain ws) = Stream_loop h st kb hs []"
  using Stream_loop_skip_whitespace[OF assms, of h kb hs "[]"] by simp

lemma Stream_loop_closing:
  assumes "whitespace ws_end" and "whitespace trailing"
  shows "Stream_loop h stateJSONSeekingNextPair kb vars (delivered merged (ws_end @ ''}'' @ trailing)) =
           Some (None, vars)"
proof -
  have sk: "skipping stateJSONSeekingNextPair" "skipping stateJSONObjectEnd"
    by (simp_all add: skipping_def)
  note ws = assms[unfolded whitespace_def]
  have brace: "Stream_loop h stateJSONSeekingNextPair kb vars (plain ws_end @ Read1 (CHR ''}'') None # rd) =
               Stream_loop h stateJSONObjectEnd kb vars rd" for rd
    by (simp add: Stream_loop_skip_whitespace[OF ws(1) sk(1)] Stream_loop_Read1)
  show ?thesis
  proof (cases "merged")
    case False
    then have "delivered merged (ws_end @ ''}'' @ trailing) =
        plain ws_end @ Read1 (CHR ''}'') None # plain trailing"
      by (simp add: delivered_def plain_append plain_Cons plain_Nil)
    then show ?thesis
      by (simp add: brace Stream_loop_skip_whitespace_end[OF ws(2) sk(2)] Stream_loop_Nil)
  next
    case True
    note merged = True
    show ?thesis
    proof (cases "trailing = []")
      case True
      with merged have "delivered merged (ws_end @ ''}'' @ trailing) =
          plain ws_end @ [Read1 (CHR ''}'') (Some EOF)]"
        by (simp add: delivered_def)
      then show ?thesis
        by (simp add: Stream_loop_skip_whitespace[OF ws(1) sk(1)] Stream_loop_Read1_err)
    next
      case False
      from False ws(2) have lw: "isWhitespace (last trailing)" by simp
      have bw: "\<forall>c\<in>set (butlast trailing). isWhitespace c"
        using ws(2) by (auto dest: in_set_butlastD)
      from merged False have "delivered merged (ws_end @ ''}'' @ trailing) =
          plain ws_end @ Read1 (CHR ''}'') None # (plain (butlast trailing) @ [Read1 (last trailing) (Some EOF)])"
        by (simp add: delivered_def butlast_append plain_append plain_Cons plain_Nil)
      then show ?thesis
        using lw
        by (simp add: brace Stream_loop_skip_whitespace[OF bw sk(2)] Stream_loop_Read1_err
              Stream_byte_whitespace[OF lw sk(2)])
    qed
  qed
qed

definition opens :: "jstate \<Rightarrow> char \<Rightarrow> bool" where
  "opens st c = (st = stateJSONSeekingObjectStart \<and> c = CHR ''{'' \<or> st = stateJSONSeekingNextPair \<and> c = CHR '','')"

lemma valid_member_key:
  "valid_member L m \<Longrightarrow> \<not> escaped (key m) \<and> CHR 0x22 \<notin> set (key m)"
  by (auto simp: valid_member_def escaped_def)

lemma valid_member_wf:
  assumes "\<forall>m\<in>set ms. valid_member L m" and "\<not> isWhitespace c" and "c \<noteq> CHR 0x22"
  shows "wf_tokens (members_wts c ms)"
  using assms
proof (induction ms arbitrary: c)
  case Nil
  show ?case by (simp add: wf_tokens_def)
next
  case (Cons m ms)
  then have v: "valid_member L m" by simp
  then have "CHR 0x22 \<notin> set (val m)" "CHR 0x22 \<notin> set (key m)"
    "\<forall>c\<in>set (ws_open m). isWhitespace c" "\<forall>c\<in>set (ws_key m). isWhitespace c"
    "\<forall>c\<in>set (ws_colon m). isWhitespace c" "\<forall>c\<in>set (ws_val m). isWhitespace c"
    using valid_member_key[OF v] by (auto simp: valid_member_def clean_def whitespace_def)
  moreover have "wf_tokens (members_wts (CHR '','') ms)"
    using Cons.prems by (intro Cons.IH) (simp_all add: isWhitespace_def)
  ultimately show ?case
    using Cons.prems(2,3) by (simp add: wf_tokens_Cons isWhitespace_def)
qed

text \<open>One member of the object: the opening byte, the key, the colon and the value.\<close>

lemma run_tokens_member:
  assumes "valid_member L m" and "opens st c"
  shows "run_tokens L pass st kb vars (members_wts c (m # ms)) rest =
           (case value_effect L pass vars (key m) (val m) of
              TReturn r vars' \<Rightarrow> Some (r, vars')
            | THalt vars' v \<Rightarrow>
                Some (None, vars'\<lparr>jsonData := Some \<lparr>eof = False,
                   reader = plain v @ Read1 (CHR 0x22) None # (plain (render (members_wts (CHR '','') ms)) @ rest)\<rparr>\<rparr>)
            | TContinue st' kb' vars' \<Rightarrow> run_tokens L pass st' kb' vars' (members_wts (CHR '','') ms) rest)"
proof -
  from valid_member_key[OF assms(1)] have k: "\<not> escaped (key m)" by simp
  from assms(2) have "token_step L pass st kb vars (Sym c) = TContinue stateJSONSeekingKeyStart kb vars"
    by (auto simp: opens_def)
  with k show ?thesis
    by (simp add: isWhitespace_def split: tstep.splits)
qed

lemma value_effect_valid:
  assumes "valid_member L m" and "pass = 0 \<or> key m \<noteq> ''data''"
  shows "value_effect L pass vars (key m) (val m) = TContinue stateJSONSeekingNextPair (key m) (absorb L vars m)"
proof -
  from assms(1) have "\<not> escaped (val m)"
    by (simp add: valid_member_def clean_iff)
  with assms show ?thesis
    by (auto simp: valid_member_def value_effect_def absorb_def base64_effect_def)
qed

lemma value_effect_data:
  assumes "key m = ''data''" and "pass \<noteq> 0"
  shows "value_effect L pass vars (key m) (val m) = THalt vars (val m)"
  using assms by (simp add: value_effect_def)

lemma opens_comma: "opens stateJSONSeekingNextPair (CHR '','')"
  by (simp add: opens_def)

lemma opens_brace: "opens stateJSONSeekingObjectStart (CHR ''{'')"
  by (simp add: opens_def)

text \<open>Members that do not halt the loop: all of them in pass 0, all but \<open>data\<close> in pass 1.\<close>

lemma run_tokens_members:
  assumes "\<forall>m\<in>set (m # ms). valid_member L m \<and> (pass = 0 \<or> key m \<noteq> ''data'')" and "opens st c"
  shows "run_tokens L pass st kb vars (members_wts c (m # ms)) rest =
           Stream_loop (jsonHandler L pass) stateJSONSeekingNextPair (key (last (m # ms)))
             (foldl (absorb L) vars (m # ms)) rest"
  using assms
proof (induction ms arbitrary: m st c kb vars)
  case Nil
  then have v: "valid_member L m" and p: "pass = 0 \<or> key m \<noteq> ''data''" by simp_all
  show ?case
    unfolding run_tokens_member[OF v Nil.prems(2)] value_effect_valid[OF v p] by simp
next
  case (Cons m' ms)
  then have v: "valid_member L m" and p: "pass = 0 \<or> key m \<noteq> ''data''" by simp_all
  have rest: "\<forall>x\<in>set (m' # ms). valid_member L x \<and> (pass = 0 \<or> key x \<noteq> ''data'')"
    using Cons.prems(1) by simp
  show ?case
    unfolding run_tokens_member[OF v Cons.prems(2)] value_effect_valid[OF v p]
    using Cons.IH[OF rest opens_comma, of "key m" "absorb L vars m"] by simp
qed

lemma run_tokens_members_halt:
  assumes "\<forall>m\<in>set pre. valid_member L m \<and> key m \<noteq> ''data''"
    and "valid_member L d" and "key d = ''data''" and "pass \<noteq> 0" and "opens st c"
  shows "run_tokens L pass st kb vars (members_wts c (pre @ d # post)) rest =
           Some (None, (foldl (absorb L) vars pre)\<lparr>jsonData := Some \<lparr>eof = False,
              reader = plain (val d) @ Read1 (CHR 0x22) None # (plain (render (members_wts (CHR '','') post)) @ rest)\<rparr>\<rparr>)"
  using assms(1,5)
proof (induction pre arbitrary: st c kb vars)
  case Nil
  show ?case
    unfolding append_Nil run_tokens_member[OF assms(2) Nil.prems(2)] value_effect_data[OF assms(3,4)]
    by simp
next
  case (Cons m pre)
  then have v: "valid_member L m" and p: "pass = 0 \<or> key m \<noteq> ''data''" by simp_all
  have rest: "\<forall>x\<in>set pre. valid_member L x \<and> key x \<noteq> ''data''"
    using Cons.prems(1) by simp
  show ?case
    unfolding append_Cons run_tokens_member[OF v Cons.prems(2)] value_effect_valid[OF v p]
    using Cons.IH[OF rest opens_comma, of "key m" "absorb L vars m"] by simp
qed

lemma envelope_reader_split:
  "envelope_reader merged ms ws_end trailing =
     plain (render (members_wts (CHR ''{'') ms)) @ delivered merged (ws_end @ ''}'' @ trailing)"
  by (simp add: envelope_reader_def envelope_text_def delivered_append)

lemma Stream_envelope:
  assumes "\<forall>m\<in>set ms. valid_member L m \<and> (pass = 0 \<or> key m \<noteq> ''data'')" and "ms \<noteq> []"
    and "whitespace ws_end" and "whitespace trailing"
  shows "Stream (jsonHandler L pass) vars (envelope_reader merged ms ws_end trailing) =
           Some (None, foldl (absorb L) vars ms)"
proof -
  from assms(2) obtain m ms' where ms: "ms = m # ms'" by (cases ms) auto
  have wf: "wf_tokens (members_wts (CHR ''{'') ms)"
    using assms(1) by (intro valid_member_wf[of _ L]) (simp_all add: isWhitespace_def)
  have sk: "skipping stateJSONSeekingObjectStart" by (simp add: skipping_def)
  have "Stream (jsonHandler L pass) vars (envelope_reader merged ms ws_end trailing) =
        run_tokens L pass stateJSONSeekingObjectStart [] vars (members_wts (CHR ''{'') ms)
          (delivered merged (ws_end @ ''}'' @ trailing))"
    by (simp only: Stream_def envelope_reader_split Stream_loop_tokens[OF wf sk])
  also have "\<dots> = Stream_loop (jsonHandler L pass) stateJSONSeekingNextPair (key (last ms))
          (foldl (absorb L) vars ms) (delivered merged (ws_end @ ''}'' @ trailing))"
    unfolding ms using assms(1) unfolding ms by (rule run_tokens_members[OF _ opens_brace])
  also have "\<dots> = Some (None, foldl (absorb L) vars ms)"
    by (rule Stream_loop_closing[OF assms(3,4)])
  finally show ?thesis .
qed

definition payload_at :: "bool \<Rightarrow> member \<Rightarrow> member list \<Rightarrow> string \<Rightarrow> string \<Rightarrow> limitedJSONValueStreamer" where
  "payload_at merged d post ws_end trailing =
     \<lparr>eof = False,
      reader = plain (val d) @ Read1 (CHR 0x22) None #
        (plain (render (members_wts (CHR '','') post)) @ delivered merged (ws_end @ ''}'' @ trailing))\<rparr>"

lemma Stream_envelope_halt:
  assumes "\<forall>m\<in>set pre. valid_member L m \<and> key m \<noteq> ''data''"
    and "valid_member L d" and "key d = ''data''" and "\<forall>m\<in>set post. valid_member L m" and "pass \<noteq> 0"
  shows "Stream (jsonHandler L pass) vars (envelope_reader merged (pre @ d # post) ws_end trailing) =
           Some (None, (foldl (absorb L) vars pre)\<lparr>jsonData := Some (payload_at merged d post ws_end trailing)\<rparr>)"
proof -
  have wf: "wf_tokens (members_wts (CHR ''{'') (pre @ d # post))"
    using assms(1,2,4) by (intro valid_member_wf[of _ L]) (auto simp: isWhitespace_def)
  have sk: "skipping stateJSONSeekingObjectStart" by (simp add: skipping_def)
  have "Stream (jsonHandler L pass) vars (envelope_reader merged (pre @ d # post) ws_end trailing) =
        run_tokens L pass stateJSONSeekingObjectStart [] vars (members_wts (CHR ''{'') (pre @ d # post))
          (delivered merged (ws_end @ ''}'' @ trailing))"
    by (simp only: Stream_def envelope_reader_split Stream_loop_tokens[OF wf sk])
  also have "\<dots> = Some (None, (foldl (absorb L) vars pre)\<lparr>jsonData := Some (payload_at merged d post ws_end trailing)\<rparr>)"
    unfolding payload_at_def
    by (rule run_tokens_members_halt[OF assms(1,2,3,5) opens_brace])
  finally show ?thesis .
qed

lemma payload_at_content:
  assumes "valid_member L d"
  shows "payload_content n (payload_at merged d post ws_end trailing) = (val d, None)"
proof -
  from assms have c: "clean (val d)" by (simp add: valid_member_def)
  then have "CHR 0x22 \<notin> set (val d)" "\<not> escaped (val d)" by (simp_all add: clean_iff)
  then show ?thesis
    by (simp add: payload_at_def payload_content_string not_escaped_before)
qed

lemma Decompress_envelope:
  assumes "zlib_NewReader L file = Inr (envelope_reader merged ms ws_end trailing)"
  shows "Decompress L file = Inr (envelope_text ms ws_end trailing)"
  using assms by (simp add: Decompress_def envelope_reader_def reader_ReadAll_delivered)

section \<open>The two passes of the streaming verifier\<close>


lemma verifyPass0_None:
  "verifyPass0 L pk vars = None \<longleftrightarrow>
     (\<exists>digest signature der k.
        jsonSigningPublicKey vars = Some digest \<and> jsonSignature vars = Some signature
      \<and> base64_DecodeString L pk = Inr der \<and> x509_ParsePKIXPublicKey L der = Inr (RSAPublicKey k)
      \<and> digest = sha256sum L pk
      \<and> rsa_VerifyPKCS1v15 L k (sha256_Sum256 L (hash vars)) signature = None)"
  by (auto simp: verifyPass0_def split: option.splits sum.splits publicKey.splits)

lemma passBody0_success:
  assumes "passBody L file pk 0 payload = Some (Inr p)"
  shows "\<exists>rd vars. file_Seek L file = None \<and> zlib_NewReader L file = Inr rd
           \<and> Stream (jsonHandler L 0) initialVars rd = Some (None, vars)
           \<and> verifyPass0 L pk vars = None \<and> p = payload"
  using assms
  by (auto simp: passBody_def split: option.splits sum.splits prod.splits)

lemma passBody1_success:
  assumes "passBody L file pk (Suc 0) payload = Some (Inr p)"
  shows "\<exists>v. p = Some v"
  using assms
  by (cases p) (auto simp: passBody_def split: option.splits sum.splits prod.splits)

lemma streaming_success:
  assumes "StreamingReadAuthenticatedDataPackage L name pk = Some (Inr payload)"
  shows "\<exists>file v. os_Open L name = Inr file \<and> passBody L file pk 0 None = Some (Inr None)
           \<and> passBody L file pk 1 None = Some (Inr (Some v)) \<and> payload = Some v"
proof -
  from assms obtain fl where f: "os_Open L name = Inr fl"
    and loop: "passLoop L fl pk 0 None = Some (Inr payload)"
    by (auto simp: StreamingReadAuthenticatedDataPackage_def split: sum.splits)
  from loop obtain p where p0: "passBody L fl pk 0 None = Some (Inr p)"
    and p1: "passBody L fl pk 1 p = Some (Inr payload)"
    by (auto simp: passLoop_unfold split: option.splits sum.splits)
  from passBody0_payload[OF p0] have "p = None" .
  with p0 p1 passBody1_success[of L fl pk p payload] f show ?thesis by auto
qed

text \<open>
  C1. When \<open>StreamingReadAuthenticatedDataPackage\<close> returns a payload reader and no
  error, pass 0 has run to its end on the opened file: \<open>Stream\<close> returned without error,
  both fields were seen, the key decoded to an RSA key, the stored digest equals the
  digest of the key string, and the signature verifies over the SHA-256 of what the
  handler wrote to the hash, the streamed \<open>data\<close>; the iteration of pass 0 ended without
  a payload, and the reader returned is the one pass 1 captured. Whenever pass 0 ends
  with an error the caller receives that error, and so no reader.
\<close>

theorem streaming_reader_only_after_pass0:
  "(StreamingReadAuthenticatedDataPackage L name pk = Some (Inr payload) \<longrightarrow>
      (\<exists>file rd vars digest signature der k v.
          os_Open L name = Inr file \<and> zlib_NewReader L file = Inr rd
        \<and> Stream (jsonHandler L 0) initialVars rd = Some (None, vars)
        \<and> jsonSigningPublicKey vars = Some digest \<and> jsonSignature vars = Some signature
        \<and> base64_DecodeString L pk = Inr der \<and> x509_ParsePKIXPublicKey L der = Inr (RSAPublicKey k)
        \<and> digest = sha256sum L pk
        \<and> rsa_VerifyPKCS1v15 L k (sha256_Sum256 L (hash vars)) signature = None
        \<and> passBody L file pk 0 None = Some (Inr None)
        \<and> passBody L file pk 1 None = Some (Inr payload)
        \<and> payload = Some v))
   \<and> (\<forall>file err. os_Open L name = Inr file \<and> passBody L file pk 0 None = Some (Inl err) \<longrightarrow>
          StreamingReadAuthenticatedDataPackage L name pk = Some (Inl err))"
proof (intro conjI impI allI)
  assume a: "StreamingReadAuthenticatedDataPackage L name pk = Some (Inr payload)"
  from streaming_success[OF a] obtain fl v where f: "os_Open L name = Inr fl"
    and p0: "passBody L fl pk 0 None = Some (Inr None)"
    and p1: "passBody L fl pk 1 None = Some (Inr (Some v))" and pl: "payload = Some v"
    by blast
  from passBody0_success[OF p0] obtain rd vars where
    z: "zlib_NewReader L fl = Inr rd" and s: "Stream (jsonHandler L 0) initialVars rd = Some (None, vars)"
    and v: "verifyPass0 L pk vars = None"
    by blast
  from v[unfolded verifyPass0_None] obtain digest signature der k where
    "jsonSigningPublicKey vars = Some digest" "jsonSignature vars = Some signature"
    "base64_DecodeString L pk = Inr der" "x509_ParsePKIXPublicKey L der = Inr (RSAPublicKey k)"
    "digest = sha256sum L pk"
    "rsa_VerifyPKCS1v15 L k (sha256_Sum256 L (hash vars)) signature = None"
    by blast
  with f z s p0 p1 pl
  show "\<exists>file rd vars digest signature der k v.
          os_Open L name = Inr file \<and> zlib_NewReader L file = Inr rd
        \<and> Stream (jsonHandler L 0) initialVars rd = Some (None, vars)
        \<and> jsonSigningPublicKey vars = Some digest \<and> jsonSignature vars = Some signature
        \<and> base64_DecodeString L pk = Inr der \<and> x509_ParsePKIXPublicKey L der = Inr (RSAPublicKey k)
        \<and> digest = sha256sum L pk
        \<and> rsa_VerifyPKCS1v15 L k (sha256_Sum256 L (hash vars)) signature = None
        \<and> passBody L file pk 0 None = Some (Inr None)
        \<and> passBody L file pk 1 None = Some (Inr payload)
        \<and> payload = Some v"
    by blast
next
  fix fl err
  assume "os_Open L name = Inr fl \<and> passBody L fl pk 0 None = Some (Inl err)"
  then show "StreamingReadAuthenticatedDataPackage L name pk = Some (Inl err)"
    by (simp add: StreamingReadAuthenticatedDataPackage_def passLoop_unfold)
qed

text \<open>The whole verifier on a well-formed envelope whose pass 0 verifies.\<close>

lemma streaming_envelope:
  assumes "os_Open L name = Inr file" and "file_Seek L file = None"
    and "zlib_NewReader L file = Inr (envelope_reader merged (pre @ d # post) ws_end trailing)"
    and "\<forall>m\<in>set (pre @ d # post). valid_member L m"
    and "\<forall>m\<in>set pre. key m \<noteq> ''data''" and "key d = ''data''"
    and "whitespace ws_end" and "whitespace trailing"
    and "verifyPass0 L signingPublicKey (foldl (absorb L) initialVars (pre @ d # post)) = None"
  shows "passBody L file signingPublicKey 0 None = Some (Inr None)"
    and "passBody L file signingPublicKey 1 None = Some (Inr (Some (payload_at merged d post ws_end trailing)))"
    and "StreamingReadAuthenticatedDataPackage L name signingPublicKey =
           Some (Inr (Some (payload_at merged d post ws_end trailing)))"
proof -
  have s0: "Stream (jsonHandler L 0) initialVars (envelope_reader merged (pre @ d # post) ws_end trailing) =
              Some (None, foldl (absorb L) initialVars (pre @ d # post))"
    using assms(4) by (intro Stream_envelope assms(7,8)) simp_all
  have s1: "Stream (jsonHandler L 1) initialVars (envelope_reader merged (pre @ d # post) ws_end trailing) =
              Some (None, (foldl (absorb L) initialVars pre)\<lparr>jsonData := Some (payload_at merged d post ws_end trailing)\<rparr>)"
    using assms(4,5,6) by (intro Stream_envelope_halt) simp_all
  show p0: "passBody L file signingPublicKey 0 None = Some (Inr None)"
    using assms(2,3,9) s0 by (simp add: passBody_def)
  show p1: "passBody L file signingPublicKey 1 None = Some (Inr (Some (payload_at merged d post ws_end trailing)))"
    using assms(2,3) s1 by (simp add: passBody_def)
  from p0 p1 assms(1)
  show "StreamingReadAuthenticatedDataPackage L name signingPublicKey =
           Some (Inr (Some (payload_at merged d post ws_end trailing)))"
    by (simp add: StreamingReadAuthenticatedDataPackage_def passLoop_unfold)
qed

section \<open>An example package\<close>


definition example_key :: string where
  "example_key = ''RSAk''"

definition example_data :: member where
  "example_data = \<lparr>ws_open = [], ws_key = [], key = ''data'', ws_colon = [], ws_val = '' '', val = ''hello''\<rparr>"

definition example_digest :: member where
  "example_digest =
     \<lparr>ws_open = [], ws_key = [CHR 0x0A], key = ''signingPublicKeyDigest'', ws_colon = [], ws_val = [], val = ''hkASR''\<rparr>"

definition example_signature :: member where
  "example_signature =
     \<lparr>ws_open = [], ws_key = [], key = ''signature'', ws_colon = [], ws_val = [], val = ''skholleh''\<rparr>"

definition example_file :: string where
  "example_file = CHR ''z'' # envelope_text [example_digest, example_data, example_signature] [] [CHR 0x0A]"

definition example_files :: "(string \<times> string) list" where
  "example_files = [(''package'', example_file), (''empty'', ''z{}'')]"

lemma in_alphabet:
  "list_all (\<lambda>c. c \<in> set b64_alphabet) ''hkASR''"
  "list_all (\<lambda>c. c \<in> set b64_alphabet) ''skholleh''"
  "list_all (\<lambda>c. c \<in> set b64_alphabet) ''RSAk''"
  by (simp_all add: b64_alphabet_def)

lemma toy_fields [simp]:
  "base64_DecodeString (toy_library fs) = toy_b64_decode"
  "sha256_Sum256 (toy_library fs) = toy_sum256"
  "x509_ParsePKIXPublicKey (toy_library fs) = toy_parse_public"
  "rsa_VerifyPKCS1v15 (toy_library fs) = toy_verify"
  "zlib_NewReader (toy_library fs) = toy_zlib_NewReader"
  "json_Unmarshal (toy_library fs) = toy_json_Unmarshal"
  "file_Seek (toy_library fs) file = None"
  "os_Open (toy_library fs) name =
     (case map_of fs name of None \<Rightarrow> Inl (LibraryError ''open: no such file or directory'')
      | Some contents \<Rightarrow> Inr contents)"
  by (simp_all add: toy_library_def)

lemma example_valid:
  "valid_member (toy_library fs) example_data"
  "valid_member (toy_library fs) example_digest"
  "valid_member (toy_library fs) example_signature"
  by (simp_all add: valid_member_def example_data_def example_digest_def example_signature_def
      whitespace_def isWhitespace_def clean_def decoded_def toy_b64_decode_def b64_alphabet_def)

lemma example_verifies:
  "verifyPass0 (toy_library fs) example_key
     (foldl (absorb (toy_library fs)) initialVars [example_digest, example_data, example_signature]) = None"
  by (simp add: verifyPass0_def absorb_def initialVars_def example_data_def example_digest_def
      example_signature_def example_key_def decoded_def toy_b64_decode_def b64_alphabet_def
      toy_parse_public_def sha256sum_def toy_sum256_def toy_verify_def toy_sign_def)

lemma example_streaming:
  "StreamingReadAuthenticatedDataPackage (toy_library example_files) ''package'' example_key =
     Some (Inr (Some (payload_at False example_data [example_signature] [] [CHR 0x0A])))"
proof -
  have o: "os_Open (toy_library example_files) ''package'' = Inr example_file"
    by (simp add: example_files_def)
  have z: "zlib_NewReader (toy_library example_files) example_file =
      Inr (envelope_reader False ([example_digest] @ example_data # [example_signature]) [] [CHR 0x0A])"
    by (simp add: example_file_def toy_zlib_NewReader_def envelope_reader_def delivered_def)
  have v: "\<forall>m\<in>set ([example_digest] @ example_data # [example_signature]). valid_member (toy_library example_files) m"
    by (simp add: example_valid)
  have nd: "\<forall>m\<in>set [example_digest]. key m \<noteq> ''data''" by (simp add: example_digest_def)
  have d: "key example_data = ''data''" by (simp add: example_data_def)
  have w: "whitespace []" "whitespace [CHR 0x0A]" by (simp_all add: whitespace_def isWhitespace_def)
  have ver: "verifyPass0 (toy_library example_files) example_key
     (foldl (absorb (toy_library example_files)) initialVars ([example_digest] @ example_data # [example_signature])) = None"
    using example_verifies[of example_files] by simp
  show ?thesis
    by (rule streaming_envelope(3)[OF o _ z v nd d w ver]) simp
qed



theorem streaming_reader_only_after_pass0_witness:
  "StreamingReadAuthenticatedDataPackage (toy_library example_files) ''package'' example_key =
     Some (Inr (Some (payload_at False example_data [example_signature] [] [CHR 0x0A])))
   \<and> passBody (toy_library example_files) example_file example_key 0 None = Some (Inr None)
   \<and> passBody (toy_library example_files) ''z{}'' example_key 0 None =
       Some (Inl (ContextError (ContextError (UnexpectedCharacter (CHR ''}'') stateJSONSeekingKeyStart))))
   \<and> StreamingReadAuthenticatedDataPackage (toy_library example_files) ''empty'' example_key =
       Some (Inl (ContextError (ContextError (UnexpectedCharacter (CHR ''}'') stateJSONSeekingKeyStart))))"
proof -
  let ?L = "toy_library example_files"
  let ?P = "Some (payload_at False example_data [example_signature] [] [CHR 0x0A])"
  let ?E = "ContextError (ContextError (UnexpectedCharacter (CHR ''}'') stateJSONSeekingKeyStart))"
  note T = streaming_reader_only_after_pass0[of ?L]
  have run: "StreamingReadAuthenticatedDataPackage ?L ''package'' example_key = Some (Inr ?P)"
    by (rule example_streaming)
  from T[of "''package''" example_key ?P, THEN conjunct1] run
  obtain fl where "os_Open ?L ''package'' = Inr fl" and p0: "passBody ?L fl example_key 0 None = Some (Inr None)"
    by blast
  then have "fl = example_file" by (simp add: example_files_def)
  with p0 have a: "passBody ?L example_file example_key 0 None = Some (Inr None)" by simp
  have o: "os_Open ?L ''empty'' = Inr ''z{}''"
    by (simp add: example_files_def)
  have b: "passBody ?L ''z{}'' example_key 0 None = Some (Inl ?E)"
    by (simp add: passBody_def toy_zlib_NewReader_def Stream_def plain_Cons plain_Nil
        Stream_loop_Read1 isWhitespace_def)
  from T[of "''empty''" example_key None, THEN conjunct2] o b
  have c: "StreamingReadAuthenticatedDataPackage ?L ''empty'' example_key = Some (Inl ?E)"
    by blast
  from run a b c show ?thesis by simp
qed

section \<open>The in-memory reader\<close>

text \<open>
  \<open>ReadAuthenticatedDataPackage\<close> returns the payload only when decompression, JSON
  decoding, the parsing of the key, the comparison of the digests and the verification
  of the signature have all succeeded.
\<close>

lemma read_package_returns_only_verified:
  assumes "ReadAuthenticatedDataPackage L c pk = Returns (Inr D)"
  shows "\<exists>j pkg der k.
           Decompress L c = Inr j \<and> json_Unmarshal L j = Inr (Some pkg)
         \<and> base64_DecodeString L pk = Inr der \<and> x509_ParsePKIXPublicKey L der = Inr (RSAPublicKey k)
         \<and> SigningPublicKeyDigest pkg = sha256_Sum256 L pk
         \<and> rsa_VerifyPKCS1v15 L k (sha256_Sum256 L (Data pkg)) (Signature pkg) = None
         \<and> D = Data pkg"
  using assms
  by (auto simp: ReadAuthenticatedDataPackage_def sha256sum_def
      split: sum.splits option.splits publicKey.splits if_splits)

lemma read_package_panics_iff:
  "ReadAuthenticatedDataPackage L c pk = Panics \<longleftrightarrow>
     (\<exists>j der k. Decompress L c = Inr j \<and> json_Unmarshal L j = Inr None
        \<and> base64_DecodeString L pk = Inr der \<and> x509_ParsePKIXPublicKey L der = Inr (RSAPublicKey k))"
  by (auto simp: ReadAuthenticatedDataPackage_def
      split: sum.splits option.splits publicKey.splits if_splits)

text \<open>
  C5. The function is not total. \<open>json.Unmarshal\<close> of the JSON literal \<open>null\<close> into
  \<open>&authenticatedDataPackage\<close> succeeds and leaves the pointer nil; with a public key that
  parses, the next statement reads \<open>authenticatedDataPackage.SigningPublicKeyDigest\<close>
  through the nil pointer and the function panics instead of returning an error.
\<close>

theorem read_package_panics_on_null:
  "ReadAuthenticatedDataPackage (toy_library []) (Compress (toy_library []) ''null'') example_key = Panics"
  by (simp add: ReadAuthenticatedDataPackage_def Decompress_def toy_zlib_NewReader_def toy_library_def
      plain_Cons plain_Nil toy_json_Unmarshal_def example_key_def toy_b64_decode_def b64_alphabet_def
      toy_parse_public_def isWhitespace_def)

section \<open>Repeated and missing members\<close>


text \<open>
  The values of the members named \<open>data\<close>, in document order, and the decoded value of
  the last member with a given key.
\<close>

definition data_values :: "member list \<Rightarrow> string list" where
  "data_values ms = map val (filter (\<lambda>m. key m = ''data'') ms)"

definition last_value :: "('pub, 'priv) library \<Rightarrow> string \<Rightarrow> member list \<Rightarrow> string option" where
  "last_value L k ms =
     (if filter (\<lambda>m. key m = k) ms = [] then None
      else Some (decoded L (val (last (filter (\<lambda>m. key m = k) ms)))))"

lemma last_value_snoc:
  "last_value L k (ms @ [m]) = (if key m = k then Some (decoded L (val m)) else last_value L k ms)"
  by (simp add: last_value_def)

lemma absorb_data: "key m = ''data'' \<Longrightarrow> absorb L v m = v\<lparr>hash := hash v @ val m\<rparr>"
  by (simp add: absorb_def)

lemma absorb_digest:
  "key m = ''signingPublicKeyDigest'' \<Longrightarrow> absorb L v m = v\<lparr>jsonSigningPublicKey := Some (decoded L (val m))\<rparr>"
  by (simp add: absorb_def)

lemma absorb_signature:
  "key m = ''signature'' \<Longrightarrow> absorb L v m = v\<lparr>jsonSignature := Some (decoded L (val m))\<rparr>"
  by (simp add: absorb_def)

lemma valid_member_keys:
  "valid_member L m \<Longrightarrow> key m = ''data'' \<or> key m = ''signingPublicKeyDigest'' \<or> key m = ''signature''"
  by (auto simp: valid_member_def)

lemma absorb_all:
  assumes "\<forall>m\<in>set ms. valid_member L m"
  shows "hash (foldl (absorb L) vars ms) = hash vars @ concat (data_values ms)
       \<and> jsonData (foldl (absorb L) vars ms) = jsonData vars
       \<and> jsonSigningPublicKey (foldl (absorb L) vars ms) =
           (case last_value L ''signingPublicKeyDigest'' ms of None \<Rightarrow> jsonSigningPublicKey vars | Some d \<Rightarrow> Some d)
       \<and> jsonSignature (foldl (absorb L) vars ms) =
           (case last_value L ''signature'' ms of None \<Rightarrow> jsonSignature vars | Some d \<Rightarrow> Some d)"
  using assms
proof (induction ms rule: rev_induct)
  case Nil
  show ?case by (simp add: data_values_def last_value_def)
next
  case (snoc m ms)
  then have ih: "hash (foldl (absorb L) vars ms) = hash vars @ concat (data_values ms)"
    "jsonData (foldl (absorb L) vars ms) = jsonData vars"
    "jsonSigningPublicKey (foldl (absorb L) vars ms) =
           (case last_value L ''signingPublicKeyDigest'' ms of None \<Rightarrow> jsonSigningPublicKey vars | Some d \<Rightarrow> Some d)"
    "jsonSignature (foldl (absorb L) vars ms) =
           (case last_value L ''signature'' ms of None \<Rightarrow> jsonSignature vars | Some d \<Rightarrow> Some d)"
    by simp_all
  from snoc.prems have "valid_member L m" by simp
  from valid_member_keys[OF this]
  consider (data) "key m = ''data''" | (digest) "key m = ''signingPublicKeyDigest''"
    | (sig) "key m = ''signature''" by blast
  then show ?case
  proof cases
    case data
    then show ?thesis
      by (simp add: ih absorb_data last_value_snoc data_values_def)
  next
    case digest
    then show ?thesis
      by (simp add: ih absorb_digest last_value_snoc data_values_def)
  next
    case sig
    then show ?thesis
      by (simp add: ih absorb_signature last_value_snoc data_values_def)
  qed
qed

lemma absorb_initial:
  assumes "\<forall>m\<in>set ms. valid_member L m"
  shows "hash (foldl (absorb L) initialVars ms) = concat (data_values ms)"
    and "jsonData (foldl (absorb L) initialVars ms) = None"
    and "jsonSigningPublicKey (foldl (absorb L) initialVars ms) = last_value L ''signingPublicKeyDigest'' ms"
    and "jsonSignature (foldl (absorb L) initialVars ms) = last_value L ''signature'' ms"
  using absorb_all[OF assms, of initialVars]
  by (auto simp: initialVars_def split: option.splits)

lemma passBody1_halt:
  assumes "file_Seek L file = None"
    and "zlib_NewReader L file = Inr (envelope_reader merged (pre @ d # post) ws_end trailing)"
    and "\<forall>m\<in>set (pre @ d # post). valid_member L m"
    and "\<forall>m\<in>set pre. key m \<noteq> ''data''" and "key d = ''data''"
  shows "passBody L file pk 1 payload = Some (Inr (Some (payload_at merged d post ws_end trailing)))"
proof -
  have s1: "Stream (jsonHandler L 1) initialVars (envelope_reader merged (pre @ d # post) ws_end trailing) =
              Some (None, (foldl (absorb L) initialVars pre)\<lparr>jsonData := Some (payload_at merged d post ws_end trailing)\<rparr>)"
    using assms(3,4,5) by (intro Stream_envelope_halt) simp_all
  show ?thesis
    using assms(1,2) s1 by (simp add: passBody_def)
qed

lemma passBody0_envelope:
  assumes "file_Seek L file = None"
    and "zlib_NewReader L file = Inr (envelope_reader merged ms ws_end trailing)"
    and "\<forall>m\<in>set ms. valid_member L m" and "ms \<noteq> []"
    and "whitespace ws_end" and "whitespace trailing"
  shows "passBody L file pk 0 payload =
           (case verifyPass0 L pk (foldl (absorb L) initialVars ms) of
              Some err \<Rightarrow> Some (Inl err) | None \<Rightarrow> Some (Inr payload))"
proof -
  have s0: "Stream (jsonHandler L 0) initialVars (envelope_reader merged ms ws_end trailing) =
              Some (None, foldl (absorb L) initialVars ms)"
    using assms(3) by (intro Stream_envelope assms(4,5,6)) simp_all
  show ?thesis
    using assms(1,2) s0 by (simp add: passBody_def)
qed

text \<open>
  C9. The streaming verifier does not reject repeated keys. On every well-formed
  envelope (members named \<open>data\<close>, \<open>signingPublicKeyDigest\<close> or \<open>signature\<close>, in any
  number and order, values without quote or backslash, the base64 values decodable),
  \<open>Stream\<close> of pass 0 returns without error, having written to the hash the concatenation
  of all \<open>data\<close> values in document order and kept the last \<open>signingPublicKeyDigest\<close>
  and the last \<open>signature\<close>; pass 0 then verifies with exactly these. Pass 1 returns a
  reader whose content is the first \<open>data\<close> value.
\<close>

theorem duplicate_members_are_accepted:
  assumes "\<forall>m\<in>set ms. valid_member L m" and "ms \<noteq> []"
    and "whitespace ws_end" and "whitespace trailing"
    and "file_Seek L file = None"
    and "zlib_NewReader L file = Inr (envelope_reader merged ms ws_end trailing)"
  shows "\<exists>vars.
           Stream (jsonHandler L 0) initialVars (envelope_reader merged ms ws_end trailing) = Some (None, vars)
         \<and> hash vars = concat (data_values ms)
         \<and> jsonSigningPublicKey vars = last_value L ''signingPublicKeyDigest'' ms
         \<and> jsonSignature vars = last_value L ''signature'' ms
         \<and> passBody L file pk 0 None =
             (case verifyPass0 L pk vars of Some err \<Rightarrow> Some (Inl err) | None \<Rightarrow> Some (Inr None))
         \<and> (\<forall>pre d post. ms = pre @ d # post \<and> (\<forall>m\<in>set pre. key m \<noteq> ''data'') \<and> key d = ''data'' \<longrightarrow>
               (\<exists>payload. passBody L file pk 1 None = Some (Inr (Some payload))
                  \<and> payload_content n payload = (val d, None)))"
proof -
  let ?vars = "foldl (absorb L) initialVars ms"
  have s0: "Stream (jsonHandler L 0) initialVars (envelope_reader merged ms ws_end trailing) = Some (None, ?vars)"
    using assms(1) by (intro Stream_envelope assms(2,3,4)) simp_all
  have p0: "passBody L file pk 0 None =
      (case verifyPass0 L pk ?vars of Some err \<Rightarrow> Some (Inl err) | None \<Rightarrow> Some (Inr None))"
    by (rule passBody0_envelope[OF assms(5,6,1,2,3,4)])
  have p1: "\<exists>payload. passBody L file pk 1 None = Some (Inr (Some payload))
                  \<and> payload_content n payload = (val d, None)"
    if "ms = pre @ d # post" "\<forall>m\<in>set pre. key m \<noteq> ''data''" "key d = ''data''" for pre d post
  proof -
    from assms(1) that(1) have v: "\<forall>m\<in>set (pre @ d # post). valid_member L m" by simp
    then have vd: "valid_member L d" by simp
    have "passBody L file pk 1 None = Some (Inr (Some (payload_at merged d post ws_end trailing)))"
      using assms(6) unfolding that(1) by (intro passBody1_halt[OF assms(5) _ v that(2,3)])
    with payload_at_content[OF vd] show ?thesis by blast
  qed
  from s0 p0 p1 absorb_initial[OF assms(1)] show ?thesis by blast
qed

text \<open>
  C10. An envelope without a \<open>data\<close> member whose last signature verifies over the
  SHA-256 of the empty string (the key parsing and its digest matching the last stored
  digest) passes pass 0; pass 1 then finds no \<open>data\<close> and fails with "missing expected
  field", which is what the caller receives.
\<close>

theorem missing_data_found_only_in_pass1:
  assumes "\<forall>m\<in>set ms. valid_member L m" and "ms \<noteq> []"
    and "whitespace ws_end" and "whitespace trailing"
    and "\<forall>m\<in>set ms. key m \<noteq> ''data''"
    and "os_Open L name = Inr file" and "file_Seek L file = None"
    and "zlib_NewReader L file = Inr (envelope_reader merged ms ws_end trailing)"
    and "last_value L ''signingPublicKeyDigest'' ms = Some digest"
    and "last_value L ''signature'' ms = Some signature"
    and "base64_DecodeString L pk = Inr der" and "x509_ParsePKIXPublicKey L der = Inr (RSAPublicKey k)"
    and "digest = sha256_Sum256 L pk"
    and "rsa_VerifyPKCS1v15 L k (sha256_Sum256 L []) signature = None"
  shows "passBody L file pk 0 None = Some (Inr None)
       \<and> passBody L file pk 1 None = Some (Inl (ContextError MissingExpectedField))
       \<and> StreamingReadAuthenticatedDataPackage L name pk = Some (Inl (ContextError MissingExpectedField))"
proof -
  let ?vars = "foldl (absorb L) initialVars ms"
  note a = absorb_initial[OF assms(1)]
  have "data_values ms = []"
    using assms(5) by (simp add: data_values_def filter_empty_conv)
  with a(1) have h: "hash ?vars = []" by simp
  have "verifyPass0 L pk ?vars = None"
    unfolding verifyPass0_None using a(3,4) assms(9-14) h by (simp add: sha256sum_def)
  with passBody0_envelope[OF assms(7,8,1,2,3,4), of pk None]
  have p0: "passBody L file pk 0 None = Some (Inr None)" by simp
  have s1: "Stream (jsonHandler L 1) initialVars (envelope_reader merged ms ws_end trailing) = Some (None, ?vars)"
    using assms(1,5) by (intro Stream_envelope assms(2,3,4)) simp_all
  have p1: "passBody L file pk 1 None = Some (Inl (ContextError MissingExpectedField))"
    using assms(7,8) s1 a(2) by (simp add: passBody_def)
  from p0 p1 assms(6)
  have "StreamingReadAuthenticatedDataPackage L name pk = Some (Inl (ContextError MissingExpectedField))"
    by (simp add: StreamingReadAuthenticatedDataPackage_def passLoop_unfold)
  with p0 p1 show ?thesis by simp
qed



definition example_old_digest :: member where
  "example_old_digest =
     \<lparr>ws_open = [], ws_key = [], key = ''signingPublicKeyDigest'', ws_colon = [], ws_val = [], val = ''hOLD''\<rparr>"

definition example_more_data :: member where
  "example_more_data = \<lparr>ws_open = '' '', ws_key = [], key = ''data'', ws_colon = [], ws_val = [], val = ''XY''\<rparr>"

definition example_empty_signature :: member where
  "example_empty_signature =
     \<lparr>ws_open = [], ws_key = [], key = ''signature'', ws_colon = [], ws_val = [], val = ''skh''\<rparr>"

definition repeated_members :: "member list" where
  "repeated_members = [example_data, example_old_digest, example_digest, example_signature, example_more_data]"

definition repeated_file :: string where
  "repeated_file = CHR ''z'' # envelope_text repeated_members [] []"

definition no_data_file :: string where
  "no_data_file = CHR ''z'' # envelope_text [example_digest, example_empty_signature] [] []"

definition more_files :: "(string \<times> string) list" where
  "more_files = [(''repeated'', repeated_file), (''nodata'', no_data_file)]"

lemma more_valid:
  "valid_member (toy_library fs) example_old_digest"
  "valid_member (toy_library fs) example_more_data"
  "valid_member (toy_library fs) example_empty_signature"
  by (simp_all add: valid_member_def example_old_digest_def example_more_data_def
      example_empty_signature_def whitespace_def isWhitespace_def clean_def decoded_def
      toy_b64_decode_def b64_alphabet_def)

lemma whitespace_Nil: "whitespace []"
  by (simp add: whitespace_def)

lemma toy_reader: "zlib_NewReader (toy_library fs) (CHR ''z'' # envelope_text ms ws_end trailing) =
    Inr (envelope_reader False ms ws_end trailing)"
  by (simp add: toy_zlib_NewReader_def envelope_reader_def delivered_def)

theorem duplicate_members_are_accepted_witness:
  "(\<exists>vars. Stream (jsonHandler (toy_library more_files) 0) initialVars
              (envelope_reader False repeated_members [] []) = Some (None, vars)
          \<and> hash vars = ''helloXY''
          \<and> jsonSigningPublicKey vars = Some ''hkASR''
          \<and> jsonSignature vars = Some ''skholleh'')
   \<and> (\<exists>payload. passBody (toy_library more_files) repeated_file example_key 1 None = Some (Inr (Some payload))
          \<and> payload_content (True, CHR 0x00, []) payload = (''hello'', None))"
proof -
  let ?L = "toy_library more_files"
  have v: "\<forall>m\<in>set repeated_members. valid_member ?L m"
    by (simp add: repeated_members_def example_valid more_valid)
  have ne: "repeated_members \<noteq> []" by (simp add: repeated_members_def)
  have z: "zlib_NewReader ?L repeated_file = Inr (envelope_reader False repeated_members [] [])"
    unfolding repeated_file_def by (rule toy_reader)
  have sk: "file_Seek ?L repeated_file = None" by simp
  from duplicate_members_are_accepted[OF v ne whitespace_Nil whitespace_Nil sk z,
      of example_key "(True, CHR 0x00, [])"]
  obtain vars where s: "Stream (jsonHandler ?L 0) initialVars (envelope_reader False repeated_members [] []) = Some (None, vars)"
    and h: "hash vars = concat (data_values repeated_members)"
    and d: "jsonSigningPublicKey vars = last_value ?L ''signingPublicKeyDigest'' repeated_members"
    and g: "jsonSignature vars = last_value ?L ''signature'' repeated_members"
    and p: "\<forall>pre d post. repeated_members = pre @ d # post \<and> (\<forall>m\<in>set pre. key m \<noteq> ''data'') \<and> key d = ''data'' \<longrightarrow>
               (\<exists>payload. passBody ?L repeated_file example_key 1 None = Some (Inr (Some payload))
                  \<and> payload_content (True, CHR 0x00, []) payload = (val d, None))"
    by blast
  have h': "concat (data_values repeated_members) = ''helloXY''"
    by (simp add: data_values_def repeated_members_def example_data_def example_old_digest_def
        example_digest_def example_signature_def example_more_data_def)
  have d': "last_value ?L ''signingPublicKeyDigest'' repeated_members = Some ''hkASR''"
    by (simp add: last_value_def repeated_members_def example_data_def example_old_digest_def
        example_digest_def example_signature_def example_more_data_def decoded_def
        toy_b64_decode_def b64_alphabet_def)
  have g': "last_value ?L ''signature'' repeated_members = Some ''skholleh''"
    by (simp add: last_value_def repeated_members_def example_data_def example_old_digest_def
        example_digest_def example_signature_def example_more_data_def decoded_def
        toy_b64_decode_def b64_alphabet_def)
  have split: "repeated_members = [] @ example_data # [example_old_digest, example_digest, example_signature, example_more_data]"
    by (simp add: repeated_members_def)
  have "\<exists>payload. passBody ?L repeated_file example_key 1 None = Some (Inr (Some payload))
                  \<and> payload_content (True, CHR 0x00, []) payload = (val example_data, None)"
    using p[rule_format, of "[]" example_data "[example_old_digest, example_digest, example_signature, example_more_data]"]
      split by (simp add: example_data_def)
  moreover have "val example_data = ''hello''" by (simp add: example_data_def)
  ultimately show ?thesis using s h d g h' d' g' by auto
qed

theorem missing_data_found_only_in_pass1_witness:
  "rsa_VerifyPKCS1v15 (toy_library more_files) (CHR ''k'') (sha256_Sum256 (toy_library more_files) []) ''skh'' = None
   \<and> passBody (toy_library more_files) no_data_file example_key 0 None = Some (Inr None)
   \<and> passBody (toy_library more_files) no_data_file example_key 1 None =
       Some (Inl (ContextError MissingExpectedField))
   \<and> StreamingReadAuthenticatedDataPackage (toy_library more_files) ''nodata'' example_key =
       Some (Inl (ContextError MissingExpectedField))"
proof -
  let ?L = "toy_library more_files"
  let ?ms = "[example_digest, example_empty_signature]"
  have v: "\<forall>m\<in>set ?ms. valid_member ?L m"
    by (simp add: example_valid more_valid)
  have nd: "\<forall>m\<in>set ?ms. key m \<noteq> ''data''"
    by (simp add: example_digest_def example_empty_signature_def)
  have z: "zlib_NewReader ?L no_data_file = Inr (envelope_reader False ?ms [] [])"
    unfolding no_data_file_def by (rule toy_reader)
  have o: "os_Open ?L ''nodata'' = Inr no_data_file" by (simp add: more_files_def)
  have sk: "file_Seek ?L no_data_file = None" by simp
  have d: "last_value ?L ''signingPublicKeyDigest'' ?ms = Some ''hkASR''"
    by (simp add: last_value_def example_digest_def example_empty_signature_def decoded_def
        toy_b64_decode_def b64_alphabet_def)
  have g: "last_value ?L ''signature'' ?ms = Some ''skh''"
    by (simp add: last_value_def example_digest_def example_empty_signature_def decoded_def
        toy_b64_decode_def b64_alphabet_def)
  have b: "base64_DecodeString ?L example_key = Inr ''RSAk''"
    by (simp add: example_key_def toy_b64_decode_def b64_alphabet_def)
  have k: "x509_ParsePKIXPublicKey ?L ''RSAk'' = Inr (RSAPublicKey (CHR ''k''))"
    by (simp add: toy_parse_public_def)
  have dg: "''hkASR'' = sha256_Sum256 ?L example_key"
    by (simp add: example_key_def toy_sum256_def b64_alphabet_def)
  have ver: "rsa_VerifyPKCS1v15 ?L (CHR ''k'') (sha256_Sum256 ?L []) ''skh'' = None"
    by (simp add: toy_verify_def toy_sign_def toy_sum256_def)
  from missing_data_found_only_in_pass1[OF v _ whitespace_Nil whitespace_Nil nd o sk z d g b k dg ver] ver
  show ?thesis by simp
qed

section \<open>The digest of the signing key\<close>


text \<open>
  C4. The digest of the signing key is taken of the key string as given, the base64
  text, never of the bytes \<open>der\<close> it decodes to. Whenever
  \<open>WriteAuthenticatedDataPackage\<close> succeeds, the envelope it encodes holds
  \<open>sha256_Sum256\<close> of the string \<open>pk\<close> in \<open>SigningPublicKeyDigest\<close>. Once the package is
  decoded and the key parsed, \<open>ReadAuthenticatedDataPackage\<close> compares the stored digest
  with \<open>sha256_Sum256\<close> of the same string and returns "unexpected signing public key
  digest" when they differ (and goes on to the signature when they are equal); so does
  pass 0 of the streaming verifier with the digest it collected.
\<close>

theorem key_digest_is_of_the_base64_string:
  "(WriteAuthenticatedDataPackage L data pk priv = Inr out \<longrightarrow>
      (\<exists>signature packageJSON.
          json_Marshal L \<lparr>Data = data, SigningPublicKeyDigest = sha256_Sum256 L pk, Signature = signature\<rparr>
            = Inr packageJSON
        \<and> out = Compress L packageJSON))
   \<and> (Decompress L c = Inr j \<and> json_Unmarshal L j = Inr (Some pkg)
        \<and> base64_DecodeString L pk = Inr der \<and> x509_ParsePKIXPublicKey L der = Inr (RSAPublicKey k) \<longrightarrow>
        ReadAuthenticatedDataPackage L c pk =
          (if SigningPublicKeyDigest pkg \<noteq> sha256_Sum256 L pk
           then Returns (Inl (ContextError UnexpectedSigningPublicKeyDigest))
           else (case rsa_VerifyPKCS1v15 L k (sha256_Sum256 L (Data pkg)) (Signature pkg) of
                   Some err \<Rightarrow> Returns (Inl (ContextError err))
                 | None \<Rightarrow> Returns (Inr (Data pkg)))))
   \<and> (os_Open L name = Inr f \<and> file_Seek L f = None \<and> zlib_NewReader L f = Inr rd
        \<and> Stream (jsonHandler L 0) initialVars rd = Some (None, vars)
        \<and> jsonSigningPublicKey vars = Some digest \<and> jsonSignature vars = Some signature
        \<and> base64_DecodeString L pk = Inr der \<and> x509_ParsePKIXPublicKey L der = Inr (RSAPublicKey k)
        \<and> digest \<noteq> sha256_Sum256 L pk \<longrightarrow>
        StreamingReadAuthenticatedDataPackage L name pk =
          Some (Inl (ContextError UnexpectedSigningPublicKeyDigest)))"
proof (intro conjI impI)
  assume "WriteAuthenticatedDataPackage L data pk priv = Inr out"
  then show "\<exists>signature packageJSON.
          json_Marshal L \<lparr>Data = data, SigningPublicKeyDigest = sha256_Sum256 L pk, Signature = signature\<rparr>
            = Inr packageJSON
        \<and> out = Compress L packageJSON"
    by (auto simp: WriteAuthenticatedDataPackage_def sha256sum_def split: sum.splits)
next
  assume "Decompress L c = Inr j \<and> json_Unmarshal L j = Inr (Some pkg)
        \<and> base64_DecodeString L pk = Inr der \<and> x509_ParsePKIXPublicKey L der = Inr (RSAPublicKey k)"
  then show "ReadAuthenticatedDataPackage L c pk =
          (if SigningPublicKeyDigest pkg \<noteq> sha256_Sum256 L pk
           then Returns (Inl (ContextError UnexpectedSigningPublicKeyDigest))
           else (case rsa_VerifyPKCS1v15 L k (sha256_Sum256 L (Data pkg)) (Signature pkg) of
                   Some err \<Rightarrow> Returns (Inl (ContextError err))
                 | None \<Rightarrow> Returns (Inr (Data pkg))))"
    by (simp add: ReadAuthenticatedDataPackage_def sha256sum_def)
next
  assume a: "os_Open L name = Inr f \<and> file_Seek L f = None \<and> zlib_NewReader L f = Inr rd
        \<and> Stream (jsonHandler L 0) initialVars rd = Some (None, vars)
        \<and> jsonSigningPublicKey vars = Some digest \<and> jsonSignature vars = Some signature
        \<and> base64_DecodeString L pk = Inr der \<and> x509_ParsePKIXPublicKey L der = Inr (RSAPublicKey k)
        \<and> digest \<noteq> sha256_Sum256 L pk"
  then have "verifyPass0 L pk vars = Some (ContextError UnexpectedSigningPublicKeyDigest)"
    by (simp add: verifyPass0_def sha256sum_def)
  with a have "passBody L f pk 0 None = Some (Inl (ContextError UnexpectedSigningPublicKeyDigest))"
    by (simp add: passBody_def)
  with a show "StreamingReadAuthenticatedDataPackage L name pk =
          Some (Inl (ContextError UnexpectedSigningPublicKeyDigest))"
    by (simp add: StreamingReadAuthenticatedDataPackage_def passLoop_unfold)
qed

definition wrong_digest_members :: "member list" where
  "wrong_digest_members = [example_data, example_old_digest, example_signature]"

definition wrong_digest_file :: string where
  "wrong_digest_file = CHR ''z'' # envelope_text wrong_digest_members [] []"

lemma toy_write_hello:
  "WriteAuthenticatedDataPackage (toy_library fs) ''hello'' example_key ''PRVk'' =
     Inr (CHR ''z'' # [CHR ''{'', CHR 0x22] @ ''data'' @ [CHR 0x22, CHR '':'', CHR 0x22] @ ''hello''
          @ [CHR 0x22, CHR '','', CHR 0x22] @ ''signingPublicKeyDigest'' @ [CHR 0x22, CHR '':'', CHR 0x22]
          @ ''hkASR''
          @ [CHR 0x22, CHR '','', CHR 0x22] @ ''signature'' @ [CHR 0x22, CHR '':'', CHR 0x22]
          @ ''skholleh'' @ [CHR 0x22, CHR ''}''])"
  by (simp add: WriteAuthenticatedDataPackage_def toy_library_def toy_b64_decode_def b64_alphabet_def
      toy_parse_private_def sha256sum_def toy_sum256_def toy_sign_def toy_json_Marshal_def example_key_def)

lemma toy_unmarshal_wrong_digest:
  "toy_json_Unmarshal (envelope_text wrong_digest_members [] []) =
     Inr (Some \<lparr>Data = ''hello'', SigningPublicKeyDigest = ''hOLD'', Signature = ''skholleh''\<rparr>)"
  by (simp add: toy_json_Unmarshal_def envelope_text_def wrong_digest_members_def example_data_def
      example_old_digest_def example_signature_def isWhitespace_def toy_b64_decode_def b64_alphabet_def)

theorem key_digest_is_of_the_base64_string_witness:
  "(\<exists>signature packageJSON.
      json_Marshal (toy_library [(''wrong'', wrong_digest_file)])
        \<lparr>Data = ''hello'',
         SigningPublicKeyDigest = sha256_Sum256 (toy_library [(''wrong'', wrong_digest_file)]) example_key,
         Signature = signature\<rparr> = Inr packageJSON
    \<and> WriteAuthenticatedDataPackage (toy_library [(''wrong'', wrong_digest_file)]) ''hello'' example_key ''PRVk'' =
        Inr (Compress (toy_library [(''wrong'', wrong_digest_file)]) packageJSON))
   \<and> ReadAuthenticatedDataPackage (toy_library [(''wrong'', wrong_digest_file)]) wrong_digest_file example_key =
       Returns (Inl (ContextError UnexpectedSigningPublicKeyDigest))
   \<and> StreamingReadAuthenticatedDataPackage (toy_library [(''wrong'', wrong_digest_file)]) ''wrong'' example_key =
       Some (Inl (ContextError UnexpectedSigningPublicKeyDigest))"
proof -
  let ?L = "toy_library [(''wrong'', wrong_digest_file)]"
  let ?pkg = "\<lparr>Data = ''hello'', SigningPublicKeyDigest = ''hOLD'', Signature = ''skholleh''\<rparr>"
  note T = key_digest_is_of_the_base64_string[where L = ?L and pk = example_key]
  obtain out where w: "WriteAuthenticatedDataPackage ?L ''hello'' example_key ''PRVk'' = Inr out"
    using toy_write_hello by blast
  from T[where data = "''hello''" and priv = "''PRVk''" and out = out, THEN conjunct1] w
  have a: "\<exists>signature packageJSON.
      json_Marshal ?L \<lparr>Data = ''hello'', SigningPublicKeyDigest = sha256_Sum256 ?L example_key,
         Signature = signature\<rparr> = Inr packageJSON
    \<and> WriteAuthenticatedDataPackage ?L ''hello'' example_key ''PRVk'' = Inr (Compress ?L packageJSON)"
    by blast
  have z: "zlib_NewReader ?L wrong_digest_file = Inr (envelope_reader False wrong_digest_members [] [])"
    unfolding wrong_digest_file_def by (rule toy_reader)
  have dc: "Decompress ?L wrong_digest_file = Inr (envelope_text wrong_digest_members [] [])"
    by (rule Decompress_envelope[OF z])
  have um: "json_Unmarshal ?L (envelope_text wrong_digest_members [] []) = Inr (Some ?pkg)"
    by (simp add: toy_unmarshal_wrong_digest)
  have b64: "base64_DecodeString ?L example_key = Inr ''RSAk''"
    by (simp add: example_key_def toy_b64_decode_def b64_alphabet_def)
  have k: "x509_ParsePKIXPublicKey ?L ''RSAk'' = Inr (RSAPublicKey (CHR ''k''))"
    by (simp add: toy_parse_public_def)
  have ne: "''hOLD'' \<noteq> sha256_Sum256 ?L example_key"
    by (simp add: toy_sum256_def example_key_def)
  from T[where c = wrong_digest_file and j = "envelope_text wrong_digest_members [] []" and pkg = ?pkg
      and der = "''RSAk''" and k = "CHR ''k''", THEN conjunct2, THEN conjunct1] dc um b64 k ne
  have b: "ReadAuthenticatedDataPackage ?L wrong_digest_file example_key =
       Returns (Inl (ContextError UnexpectedSigningPublicKeyDigest))"
    by simp
  have v: "\<forall>m\<in>set wrong_digest_members. valid_member ?L m"
    by (simp add: wrong_digest_members_def example_valid more_valid)
  have s0: "Stream (jsonHandler ?L 0) initialVars (envelope_reader False wrong_digest_members [] []) =
              Some (None, foldl (absorb ?L) initialVars wrong_digest_members)"
    using v by (intro Stream_envelope whitespace_Nil) (simp_all add: wrong_digest_members_def)
  have d: "jsonSigningPublicKey (foldl (absorb ?L) initialVars wrong_digest_members) = Some ''hOLD''"
    unfolding absorb_initial(3)[OF v]
    by (simp add: last_value_def wrong_digest_members_def example_data_def example_old_digest_def
        example_signature_def decoded_def toy_b64_decode_def b64_alphabet_def)
  have g: "jsonSignature (foldl (absorb ?L) initialVars wrong_digest_members) = Some ''skholleh''"
    unfolding absorb_initial(4)[OF v]
    by (simp add: last_value_def wrong_digest_members_def example_data_def example_old_digest_def
        example_signature_def decoded_def toy_b64_decode_def b64_alphabet_def)
  have o: "os_Open ?L ''wrong'' = Inr wrong_digest_file" by simp
  have sk: "file_Seek ?L wrong_digest_file = None" by simp
  from T[where name = "''wrong''" and f = wrong_digest_file
      and rd = "envelope_reader False wrong_digest_members [] []"
      and vars = "foldl (absorb ?L) initialVars wrong_digest_members"
      and digest = "''hOLD''" and signature = "''skholleh''" and der = "''RSAk''" and k = "CHR ''k''",
      THEN conjunct2, THEN conjunct2] o sk z s0 d g b64 k ne
  have c: "StreamingReadAuthenticatedDataPackage ?L ''wrong'' example_key =
       Some (Inl (ContextError UnexpectedSigningPublicKeyDigest))"
    by blast
  from a b c show ?thesis by blast
qed

section \<open>The streaming verifier and the in-memory reader\<close>


lemma unique_member:
  assumes "distinct (map key ms)" and "x \<in> set ms"
  shows "filter (\<lambda>m. key m = key x) ms = [x]"
  using assms
proof (induction ms)
  case Nil
  then show ?case by simp
next
  case (Cons m ms)
  show ?case
  proof (cases "x = m")
    case True
    with Cons.prems(1) have "\<forall>y\<in>set ms. key y \<noteq> key x" by (auto simp: image_iff)
    then have "filter (\<lambda>m. key m = key x) ms = []" by (simp add: filter_empty_conv)
    with True show ?thesis by simp
  next
    case False
    with Cons.prems have x: "x \<in> set ms" and d: "distinct (map key ms)" by simp_all
    from Cons.prems(1) x have "key m \<noteq> key x" by (auto simp: image_iff)
    with Cons.IH[OF d x] show ?thesis by simp
  qed
qed

lemma first_member:
  assumes "distinct (map key ms)" and "x \<in> set ms"
  shows "\<exists>pre post. ms = pre @ x # post \<and> (\<forall>m\<in>set pre. key m \<noteq> key x)"
proof -
  from split_list[OF assms(2)] obtain pre post where ms: "ms = pre @ x # post" by blast
  with assms(1) have "\<forall>m\<in>set pre. key m \<noteq> key x" by (auto simp: image_iff)
  with ms show ?thesis by blast
qed




definition escaped_data :: string where
  "escaped_data = [CHR ''a'', CHR 0x22, CHR ''b'']"

definition escaped_tokens :: "(string \<times> token) list" where
  "escaped_tokens =
     [([], Sym (CHR ''{'')), ([], Str ''data''), ([], Sym (CHR '':'')), ([], Str [CHR ''a'', CHR 0x5C])]"

definition escaped_rest :: string where
  "escaped_rest =
     ''b'' @ [CHR 0x22, CHR '','', CHR 0x22] @ ''signingPublicKeyDigest'' @ [CHR 0x22, CHR '':'', CHR 0x22]
       @ ''hkASR'' @ [CHR 0x22, CHR '','', CHR 0x22] @ ''signature'' @ [CHR 0x22, CHR '':'', CHR 0x22]
       @ ''skhbxa'' @ [CHR 0x22, CHR ''}'']"

definition escaped_file :: string where
  "escaped_file = CHR ''z'' # render escaped_tokens @ escaped_rest"

lemma Decompress_toy: "Decompress (toy_library fs) (CHR ''z'' # doc) = Inr doc"
  using reader_ReadAll_plain[of doc "[]" "[]"]
  by (simp add: Decompress_def toy_zlib_NewReader_def)


lemma toy_unmarshal_example:
  "toy_json_Unmarshal (envelope_text [example_digest, example_data, example_signature] [] [CHR 0x0A]) =
     Inr (Some \<lparr>Data = ''hello'', SigningPublicKeyDigest = ''hkASR'', Signature = ''skholleh''\<rparr>)"
  by (simp add: toy_json_Unmarshal_def envelope_text_def example_data_def
      example_digest_def example_signature_def isWhitespace_def toy_b64_decode_def b64_alphabet_def)

lemma toy_read_example:
  "ReadAuthenticatedDataPackage (toy_library fs) example_file example_key = Returns (Inr ''hello'')"
  unfolding example_file_def
  by (simp add: ReadAuthenticatedDataPackage_def Decompress_toy toy_unmarshal_example)
     (simp add: example_key_def toy_b64_decode_def b64_alphabet_def toy_parse_public_def
        sha256sum_def toy_sum256_def toy_verify_def toy_sign_def)


end
